theory Spec2Isabelle
  imports Main "HOL-Library.Word" "HOL-Library.Multiset"
begin

section \<open>Data model\<close>

text \<open>
  Go strings are byte strings; they are modelled as \<open>string\<close> (a list of 8-bit \<open>char\<close>).
  An \<open>error\<close> value of the program is one of: the error returned by \<open>http.Get\<close>,
  the value built by \<open>errors.New\<close> in \<open>wordsOnPage\<close>, an error of the body's
  \<open>Read\<close> method, or \<open>bufio.ErrTooLong\<close>, the scanner's own error.
\<close>

datatype error =
    GetError string
  | ErrorsNew string
  | ReadError string
  | ErrTooLong

text \<open>The struct \<open>Result\<close>: \<open>count\<close> is a Go \<open>uint\<close> (64 bits), \<open>err\<close> is \<open>nil\<close> or an error.\<close>

record Result =
  link :: string
  count :: "64 word"
  err :: "error option"

text \<open>
  An \<open>io.Reader\<close>, such as the body of an HTTP response: the bytes it delivers, and
  how it ends: with \<open>io.EOF\<close> (\<open>None\<close>) or with a read error after those bytes. The
  reader is taken to deliver its bytes in \<open>Read\<close> calls that make progress and to
  report its end in a \<open>Read\<close> call of its own.
\<close>

record reader =
  bytes :: string
  failure :: "error option"

section \<open>The word scanner used by \<open>countOccurrences\<close>\<close>

text \<open>
  \<open>bufio.ScanWords\<close> decodes UTF-8 and separates words at the runes for which
  \<open>isSpace\<close> holds: U+0009 to U+000D, U+0020, U+0085, U+00A0, U+1680, U+2000 to U+200A,
  U+2028, U+2029, U+202F, U+205F and U+3000. \<open>space_width d\<close> is the number of bytes of
  the space rune encoded at the front of \<open>d\<close>, and 0 when \<open>d\<close> does not start with one.
\<close>

definition space_width :: "string \<Rightarrow> nat" where
  "space_width d =
     (case map of_char d :: nat list of
        [] \<Rightarrow> 0
      | b # bs \<Rightarrow>
          if b = 0x20 \<or> (0x09 \<le> b \<and> b \<le> 0x0D) then 1
          else if b = 0xC2 then
            (case bs of x # _ \<Rightarrow> if x = 0x85 \<or> x = 0xA0 then 2 else 0 | [] \<Rightarrow> 0)
          else if b = 0xE1 then
            (case bs of x # y # _ \<Rightarrow> if x = 0x9A \<and> y = 0x80 then 3 else 0 | _ \<Rightarrow> 0)
          else if b = 0xE2 then
            (case bs of
               x # y # _ \<Rightarrow>
                 if x = 0x80 \<and> (0x80 \<le> y \<and> y \<le> 0x8A \<or> y = 0xA8 \<or> y = 0xA9 \<or> y = 0xAF) then 3
                 else if x = 0x81 \<and> y = 0x9F then 3
                 else 0
             | _ \<Rightarrow> 0)
          else if b = 0xE3 then
            (case bs of x # y # _ \<Rightarrow> if x = 0x80 \<and> y = 0x80 then 3 else 0 | _ \<Rightarrow> 0)
          else 0)"

text \<open>\<open>bufio.MaxScanTokenSize\<close>, the largest buffer a default \<open>Scanner\<close> allocates.\<close>

definition MaxScanTokenSize :: nat where
  "MaxScanTokenSize = 64 * 1024"

text \<open>The first loop of \<open>ScanWords\<close>: skip leading spaces.\<close>

function skip_spaces :: "string \<Rightarrow> string" where
  "skip_spaces d = (if space_width d = 0 then d else skip_spaces (drop (space_width d) d))"
  by pat_completeness auto
termination
proof (relation "measure length")
  show "wf (measure length)" by simp
next
  fix d :: string
  assume w: "space_width d \<noteq> 0"
  then have "d \<noteq> []" by (auto simp: space_width_def)
  with w show "(drop (space_width d) d, d) \<in> measure length" by simp
qed

declare skip_spaces.simps [simp del]

text \<open>The second loop of \<open>ScanWords\<close>: the number of bytes before the next space rune.\<close>

fun word_end :: "string \<Rightarrow> nat" where
  "word_end [] = 0"
| "word_end (c # cs) = (if 0 < space_width (c # cs) then 0 else Suc (word_end cs))"

text \<open>
  One call of \<open>scanner.Scan()\<close> of a \<open>bufio.Scanner\<close> made by \<open>bufio.NewScanner\<close>
  with the split function \<open>bufio.ScanWords\<close>, on the input that is left. The scanner
  reads into a buffer that grows up to \<open>MaxScanTokenSize\<close> bytes and drops the spaces
  it has skipped. A word is returned when it and the space rune that ends it fit into
  the buffer, or when it is shorter than the buffer and the input ends after it (at
  \<open>io.EOF\<close> and at a read error alike: the scanner hands the split function what it
  holds with \<open>atEOF\<close> set in both cases, so the bytes read before a failure count as a
  last word). A full buffer of \<open>MaxScanTokenSize\<close> bytes that holds no complete word
  stops the scan with \<open>ErrTooLong\<close>. When no word is left, \<open>Scan\<close> returns false.
  The result \<open>Token t rest\<close> is the word \<open>scanner.Text()\<close> and the input left after it.
\<close>

datatype scan = Token string string | TooLong | NoToken

definition Scan :: "string \<Rightarrow> scan" where
  "Scan d =
     (let d1 = skip_spaces d;
          n = word_end d1;
          rest = drop n d1;
          k = space_width rest
      in if 0 < k then
           (if n + k \<le> MaxScanTokenSize then Token (take n d1) (drop k rest) else TooLong)
         else if n = 0 then NoToken
         else if n < MaxScanTokenSize then Token (take n d1) rest
         else TooLong)"

lemma space_width_Nil [simp]: "space_width [] = 0"
  by (simp add: space_width_def)

lemma length_skip_spaces: "length (skip_spaces d) \<le> length d"
proof (induction d rule: skip_spaces.induct)
  case (1 d)
  show ?case
  proof (cases "space_width d = 0")
    case True
    then show ?thesis by (simp add: skip_spaces.simps [of d])
  next
    case False
    with "1" have "length (skip_spaces (drop (space_width d) d)) \<le> length d" by simp
    with False show ?thesis by (simp add: skip_spaces.simps [of d])
  qed
qed

lemma word_end_le: "word_end d \<le> length d"
  by (induction d) auto

lemma Scan_Token_shorter:
  assumes "Scan d = Token t rest"
  shows "length rest < length d"
proof -
  let ?d1 = "skip_spaces d"
  let ?n = "word_end ?d1"
  let ?r = "drop ?n ?d1"
  have le: "length ?d1 \<le> length d" by (rule length_skip_spaces)
  show ?thesis
  proof (cases "0 < space_width ?r")
    case True
    then have ne: "?r \<noteq> []" by auto
    from assms True have "rest = drop (space_width ?r) ?r"
      by (simp add: Scan_def Let_def split: if_splits)
    with True ne have "length rest < length ?r" by simp
    with le show ?thesis by simp
  next
    case False
    with assms have n: "?n \<noteq> 0" and r: "rest = ?r"
      by (auto simp: Scan_def Let_def split: if_splits)
    from n have "?d1 \<noteq> []" by auto
    with n r have "length rest < length ?d1" by simp
    with le show ?thesis by simp
  qed
qed

section \<open>\<open>countOccurrences\<close>\<close>

text \<open>
  The loop \<open>for scanner.Scan() { if word == scanner.Text() { count++ } }\<close>, followed by
  \<open>scanner.Err()\<close>: the scanner's own error, the reader's error, or \<open>nil\<close> when the
  reader ended with \<open>io.EOF\<close>. \<open>count++\<close> is a 64-bit unsigned addition.
\<close>

function scan_loop :: "string \<Rightarrow> string \<Rightarrow> error option \<Rightarrow> 64 word \<Rightarrow> 64 word \<times> error option" where
  "scan_loop word d f cnt =
     (case Scan d of
        Token t rest \<Rightarrow> scan_loop word rest f (if word = t then cnt + 1 else cnt)
      | TooLong \<Rightarrow> (cnt, Some ErrTooLong)
      | NoToken \<Rightarrow> (cnt, f))"
  by pat_completeness auto
termination
proof (relation "measure (\<lambda>(word, d, f, cnt). length d)")
  show "wf (measure (\<lambda>(word :: string, d :: string, f :: error option, cnt :: 64 word). length d))"
    by simp
next
  fix word d :: string and f :: "error option" and cnt :: "64 word" and t rest :: string
  assume "Scan d = Token t rest"
  then have "length rest < length d" by (rule Scan_Token_shorter)
  then show "((word, rest, f, if word = t then cnt + 1 else cnt), (word, d, f, cnt))
             \<in> measure (\<lambda>(word, d, f, cnt). length d)"
    by simp
qed

declare scan_loop.simps [simp del]

definition countOccurrences :: "string \<Rightarrow> reader \<Rightarrow> 64 word \<times> error option" where
  "countOccurrences word s =
     (case scan_loop word (bytes s) (failure s) 0 of
        (cnt, Some e) \<Rightarrow> (cnt, Some e)
      | (cnt, None) \<Rightarrow> (cnt, None))"

section \<open>The tokens of a stream, as the specification describes them\<close>

text \<open>
  The stream is split at every whitespace rune; a run of whitespace, and whitespace at
  the start or the end, gives empty fields, which are not tokens.
\<close>

function split_ws :: "string \<Rightarrow> string list" where
  "split_ws [] = [[]]"
| "split_ws (c # cs) =
     (if 0 < space_width (c # cs) then [] # split_ws (drop (space_width (c # cs)) (c # cs))
      else (case split_ws cs of t # ts \<Rightarrow> (c # t) # ts | [] \<Rightarrow> [[c]]))"
  by pat_completeness auto
termination
proof (relation "measure length")
  show "wf (measure length)" by simp
next
  fix c :: char and cs :: string
  assume "0 < space_width (c # cs)"
  then show "(drop (space_width (c # cs)) (c # cs), c # cs) \<in> measure length" by simp
next
  fix c :: char and cs :: string
  show "(cs, c # cs) \<in> measure length" by simp
qed

definition tokens :: "string \<Rightarrow> string list" where
  "tokens d = filter (\<lambda>t. t \<noteq> []) (split_ws d)"

definition spec_count :: "string \<Rightarrow> string \<Rightarrow> nat" where
  "spec_count word d = length (filter (\<lambda>t. t = word) (tokens d))"

text \<open>Whether the scanner, run to its end on \<open>d\<close>, stops at a word too long for its buffer.\<close>

function too_long :: "string \<Rightarrow> bool" where
  "too_long d =
     (case Scan d of Token t rest \<Rightarrow> too_long rest | TooLong \<Rightarrow> True | NoToken \<Rightarrow> False)"
  by pat_completeness auto
termination
proof (relation "measure length")
  show "wf (measure length)" by simp
next
  fix d t rest :: string
  assume "Scan d = Token t rest"
  then have "length rest < length d" by (rule Scan_Token_shorter)
  then show "(rest, d) \<in> measure length" by simp
qed

declare too_long.simps [simp del]

section \<open>\<open>wordsOnPage\<close>: one iteration of the worker's loop\<close>

text \<open>
  What \<open>http.Get(link)\<close> returns: a non-nil error, or a response with a status code and
  a body to read. The network is a parameter of the model: a function from the link to
  the outcome of its GET, so every GET completes and the outcome for a link is fixed.
\<close>

datatype get_outcome = GetFailed error | Response int reader

text \<open>
  The body of \<open>for link := range links\<close>, as the list of values it sends over
  \<open>results\<close>, in order.
\<close>

definition wordsOnPage_body :: "string \<Rightarrow> (string \<Rightarrow> get_outcome) \<Rightarrow> string \<Rightarrow> Result list" where
  "wordsOnPage_body word http_Get l =
     (case http_Get l of
        GetFailed e \<Rightarrow> [\<lparr>link = l, count = 0, err = Some e\<rparr>]
      | Response status body \<Rightarrow>
          if status \<noteq> 200 then
            [\<lparr>link = l, count = 0, err = Some (ErrorsNew ''Did not receive 200 OK'')\<rparr>]
          else
            (case countOccurrences word body of
               (cnt, e) \<Rightarrow> [\<lparr>link = l, count = cnt, err = e\<rparr>]))"

section \<open>\<open>parseCLI\<close> and \<open>main\<close>: the goroutines and the two channels\<close>

text \<open>
  The checks of \<open>parseCLI\<close> on the parsed flags and positional arguments:
  \<open>Inl 1\<close> is \<open>os.Exit(1)\<close>. \<open>numWorkers\<close> is a Go \<open>uint\<close>, 64 bits wide.
\<close>

definition parseCLI :: "string \<Rightarrow> 64 word \<Rightarrow> string list \<Rightarrow> nat + (string \<times> 64 word \<times> string list)" where
  "parseCLI word numWorkers args =
     (if word = [] then Inl 1
      else if numWorkers < 1 then Inl 1
      else if length args < 1 then Inl 1
      else Inr (word, numWorkers, args))"

text \<open>What \<open>main\<close> works with: the values returned by \<open>parseCLI\<close>, and the network.\<close>

record config =
  cfg_word :: string
  numWorkers :: "64 word"
  links :: "string list"
  http_Get :: "string \<Rightarrow> get_outcome"

text \<open>
  A goroutine running \<open>wordsOnPage\<close> is at the head of its \<open>range\<close> loop, holds a
  link it has received, has values left to send for it, or has returned.
\<close>

datatype worker = AtRange | Fetching string | Sending "Result list" | Returned

text \<open>
  Where \<open>main\<close> is: in the loop that starts the goroutines (with its counter \<open>i\<close>),
  in the loop that sends the links (with the links left), in the loop that receives
  (with its counter \<open>i\<close>), or returned, which ends the program.
\<close>

datatype main_pc = Spawn int | SendLinks "string list" | Receive nat | Exit

text \<open>
  The two buffered channels with their capacities, the goroutines, \<open>main\<close>'s position
  and the Results printed so far.
\<close>

record state =
  link_chan :: "string list"
  link_chan_cap :: nat
  link_chan_closed :: bool
  result_chan :: "Result list"
  result_chan_cap :: nat
  workers :: "worker list"
  pc :: main_pc
  printed :: "Result list"

text \<open>The state after the two \<open>make\<close> calls of \<open>main\<close>.\<close>

definition init :: "config \<Rightarrow> state" where
  "init c =
     \<lparr>link_chan = [], link_chan_cap = length (links c), link_chan_closed = False,
      result_chan = [], result_chan_cap = length (links c),
      workers = [], pc = Spawn 0, printed = []\<rparr>"

text \<open>
  One step of \<open>main\<close>; \<open>None\<close> when it is blocked on a channel or has returned.
  The loop \<open>for i := 0; i < int(numWorkers); i++\<close> compares with the signed reading
  of \<open>numWorkers\<close>. A send on a buffered channel goes through when the buffer has room;
  a receive takes the oldest buffered value.
\<close>

definition main_step :: "config \<Rightarrow> state \<Rightarrow> state option" where
  "main_step c s =
     (case pc s of
        Spawn i \<Rightarrow>
          if i < sint (numWorkers c)
          then Some (s\<lparr>workers := workers s @ [AtRange], pc := Spawn (i + 1)\<rparr>)
          else Some (s\<lparr>pc := SendLinks (links c)\<rparr>)
      | SendLinks ls \<Rightarrow>
          (case ls of
             l # ls' \<Rightarrow>
               if length (link_chan s) < link_chan_cap s
               then Some (s\<lparr>link_chan := link_chan s @ [l], pc := SendLinks ls'\<rparr>)
               else None
           | [] \<Rightarrow> Some (s\<lparr>link_chan_closed := True, pc := Receive 0\<rparr>))
      | Receive i \<Rightarrow>
          if i < length (links c) then
            (case result_chan s of
               [] \<Rightarrow> None
             | r # rs \<Rightarrow>
                 Some (s\<lparr>result_chan := rs, printed := printed s @ [r], pc := Receive (i + 1)\<rparr>))
          else Some (s\<lparr>pc := Exit\<rparr>)
      | Exit \<Rightarrow> None)"

text \<open>
  One step of the goroutine number \<open>k\<close>; \<open>None\<close> when there is no such goroutine,
  when it is blocked or has returned, or when \<open>main\<close> has returned.
\<close>

definition worker_step :: "config \<Rightarrow> nat \<Rightarrow> state \<Rightarrow> state option" where
  "worker_step c k s =
     (if pc s = Exit \<or> length (workers s) \<le> k then None
      else
        (case workers s ! k of
           AtRange \<Rightarrow>
             (case link_chan s of
                l # ls \<Rightarrow> Some (s\<lparr>link_chan := ls, workers := (workers s)[k := Fetching l]\<rparr>)
              | [] \<Rightarrow>
                  if link_chan_closed s then Some (s\<lparr>workers := (workers s)[k := Returned]\<rparr>)
                  else None)
         | Fetching l \<Rightarrow>
             Some (s\<lparr>workers :=
                     (workers s)[k := Sending (wordsOnPage_body (cfg_word c) (http_Get c) l)]\<rparr>)
         | Sending rs \<Rightarrow>
             (case rs of
                [] \<Rightarrow> Some (s\<lparr>workers := (workers s)[k := AtRange]\<rparr>)
              | r # rs' \<Rightarrow>
                  if length (result_chan s) < result_chan_cap s
                  then Some (s\<lparr>result_chan := result_chan s @ [r],
                               workers := (workers s)[k := Sending rs']\<rparr>)
                  else None)
         | Returned \<Rightarrow> None))"

text \<open>A schedule says which goroutine moves next; a run follows a schedule.\<close>

datatype action = Main | Worker nat

definition step :: "config \<Rightarrow> action \<Rightarrow> state \<Rightarrow> state option" where
  "step c a s = (case a of Main \<Rightarrow> main_step c s | Worker k \<Rightarrow> worker_step c k s)"

fun run :: "config \<Rightarrow> action list \<Rightarrow> state \<Rightarrow> state option" where
  "run c [] s = Some s"
| "run c (a # as) s = Option.bind (step c a s) (run c as)"

section \<open>Definitions for the proofs: accounting, a measure, and example inputs\<close>

text \<open>A word of \<open>n\<close> bytes: the letter \<open>x\<close>, \<open>n\<close> times.\<close>

definition xs_run :: "nat \<Rightarrow> string" where
  "xs_run n = replicate n (CHR ''x'')"

text \<open>A stream with a word of 65536 bytes before the word \<open>cat\<close>.\<close>

definition long_then_cat :: reader where
  "long_then_cat = \<lparr>bytes = xs_run 65536 @ '' cat'', failure = None\<rparr>"

text \<open>A stream that is one word of 65537 bytes.\<close>

definition long_only :: reader where
  "long_only = \<lparr>bytes = xs_run 65537, failure = None\<rparr>"

text \<open>The Results that one iteration of \<open>wordsOnPage\<close> sends for a link, as a multiset.\<close>

definition results_for :: "config \<Rightarrow> string \<Rightarrow> Result multiset" where
  "results_for c l = mset (wordsOnPage_body (cfg_word c) (http_Get c) l)"

text \<open>The Results a goroutine has still to send for the link it holds.\<close>

fun pending :: "config \<Rightarrow> worker \<Rightarrow> Result multiset" where
  "pending c AtRange = {#}"
| "pending c (Fetching l) = results_for c l"
| "pending c (Sending rs) = mset rs"
| "pending c Returned = {#}"

text \<open>The links \<open>main\<close> has still to send.\<close>

fun unsent :: "config \<Rightarrow> main_pc \<Rightarrow> string list" where
  "unsent c (Spawn i) = links c"
| "unsent c (SendLinks ls) = ls"
| "unsent c (Receive i) = []"
| "unsent c Exit = []"

text \<open>
  Every Result of the run, wherever it is: printed, in the result channel, with a
  goroutine, or still to come from a link in the link channel or not yet sent.
\<close>

definition owed :: "config \<Rightarrow> state \<Rightarrow> Result multiset" where
  "owed c s =
     mset (printed s) + mset (result_chan s) + (\<Sum>w\<leftarrow>workers s. pending c w) +
     (\<Sum>l\<leftarrow>link_chan s. results_for c l) + (\<Sum>l\<leftarrow>unsent c (pc s). results_for c l)"

definition total :: "config \<Rightarrow> Result multiset" where
  "total c = (\<Sum>l\<leftarrow>links c. results_for c l)"

text \<open>The invariant of the runs of \<open>main\<close>.\<close>

definition inv :: "config \<Rightarrow> state \<Rightarrow> bool" where
  "inv c s \<longleftrightarrow>
     owed c s = total c \<and>
     link_chan_cap s = length (links c) \<and>
     result_chan_cap s = length (links c) \<and>
     (Returned \<in> set (workers s) \<longrightarrow> link_chan_closed s \<and> link_chan s = []) \<and>
     (case pc s of
        Spawn i \<Rightarrow>
          0 \<le> i \<and> (i \<le> sint (numWorkers c) \<or> i = 0) \<and> length (workers s) = nat i \<and>
          \<not> link_chan_closed s \<and> printed s = []
      | SendLinks ls \<Rightarrow>
          length (workers s) = nat (sint (numWorkers c)) \<and> \<not> link_chan_closed s \<and> printed s = []
      | Receive i \<Rightarrow>
          length (workers s) = nat (sint (numWorkers c)) \<and> link_chan_closed s \<and>
          i = length (printed s)
      | Exit \<Rightarrow> link_chan_closed s \<and> length (printed s) = length (links c))"

text \<open>A measure that every step decreases.\<close>

definition link_weight :: "config \<Rightarrow> string \<Rightarrow> nat" where
  "link_weight c l = 3 * length (wordsOnPage_body (cfg_word c) (http_Get c) l) + 3"

fun worker_weight :: "config \<Rightarrow> worker \<Rightarrow> nat" where
  "worker_weight c AtRange = 1"
| "worker_weight c (Fetching l) = link_weight c l"
| "worker_weight c (Sending rs) = 3 * length rs + 2"
| "worker_weight c Returned = 0"

fun pc_weight :: "config \<Rightarrow> main_pc \<Rightarrow> nat" where
  "pc_weight c (Spawn i) =
     2 * nat (sint (numWorkers c) - i) + (\<Sum>l\<leftarrow>links c. link_weight c l + 1) + length (links c) + 3"
| "pc_weight c (SendLinks ls) = (\<Sum>l\<leftarrow>ls. link_weight c l + 1) + length (links c) + 2"
| "pc_weight c (Receive i) = (length (links c) - i) + 1"
| "pc_weight c Exit = 0"

definition weight :: "config \<Rightarrow> state \<Rightarrow> nat" where
  "weight c s =
     pc_weight c (pc s) + (\<Sum>l\<leftarrow>link_chan s. link_weight c l) +
     (\<Sum>w\<leftarrow>workers s. worker_weight c w) + length (result_chan s)"

text \<open>
  A page that answers 200 with the text \<open>a cat\<close>, a page that answers 404, and a host
  that refuses the connection; and a page whose body breaks off with a read error.
\<close>

definition example_net :: "string \<Rightarrow> get_outcome" where
  "example_net l =
     (if l = ''http://ok'' then Response 200 \<lparr>bytes = ''a cat'', failure = None\<rparr>
      else if l = ''http://missing'' then Response 404 \<lparr>bytes = ''no cat'', failure = None\<rparr>
      else GetFailed (GetError ''connection refused''))"

definition example_cfg :: "64 word \<Rightarrow> string list \<Rightarrow> config" where
  "example_cfg n ls = \<lparr>cfg_word = ''cat'', numWorkers = n, links = ls, http_Get = example_net\<rparr>"

definition failing_net :: "string \<Rightarrow> get_outcome" where
  "failing_net l = Response 200 \<lparr>bytes = ''cat cat'', failure = Some (ReadError ''connection reset'')\<rparr>"

text \<open>A state of a run with one goroutine, which holds the first of two links.\<close>

definition example_state :: state where
  "example_state =
     \<lparr>link_chan = [''http://down''], link_chan_cap = 2, link_chan_closed = False,
      result_chan = [], result_chan_cap = 2, workers = [Fetching ''http://ok''],
      pc = SendLinks [], printed = []\<rparr>"

text \<open>A state with one goroutine at the head of its loop and two links in the channel.\<close>

definition example_idle :: state where
  "example_idle =
     \<lparr>link_chan = [''http://ok'', ''http://down''], link_chan_cap = 2, link_chan_closed = False,
      result_chan = [], result_chan_cap = 2, workers = [AtRange],
      pc = SendLinks [], printed = []\<rparr>"


text \<open>Complete runs of the same two links with one goroutine and with eight.\<close>

definition example_final_1 :: state where
  "example_final_1 =
     \<lparr>link_chan = [], link_chan_cap = 2, link_chan_closed = True,
      result_chan = [], result_chan_cap = 2, workers = [AtRange], pc = Exit,
      printed =
        [\<lparr>link = ''http://ok'', count = 1, err = None\<rparr>,
         \<lparr>link = ''http://down'', count = 0, err = Some (GetError ''connection refused'')\<rparr>]\<rparr>"

definition example_final_8 :: state where
  "example_final_8 =
     \<lparr>link_chan = [], link_chan_cap = 2, link_chan_closed = True,
      result_chan = [], result_chan_cap = 2,
      workers = [AtRange, AtRange, Sending [], AtRange, AtRange, Sending [], AtRange, AtRange],
      pc = Exit,
      printed =
        [\<lparr>link = ''http://down'', count = 0, err = Some (GetError ''connection refused'')\<rparr>,
         \<lparr>link = ''http://ok'', count = 1, err = None\<rparr>]\<rparr>"

text \<open>
  A state of a run with two goroutines and three links, in which a goroutine has a Result
  to send while an earlier Result is still in the channel and \<open>main\<close> has received none.
\<close>

definition example_sending :: state where
  "example_sending =
     \<lparr>link_chan = [''http://down''], link_chan_cap = 3, link_chan_closed = True,
      result_chan = [\<lparr>link = ''http://ok'', count = 1, err = None\<rparr>], result_chan_cap = 3,
      workers = [Sending [\<lparr>link = ''http://ok'', count = 1, err = None\<rparr>], Sending []],
      pc = Receive 0, printed = []\<rparr>"

text \<open>A state of the same run in which \<open>main\<close> is sending the links.\<close>

definition example_linking :: state where
  "example_linking =
     \<lparr>link_chan = [''http://ok''], link_chan_cap = 3, link_chan_closed = False,
      result_chan = [], result_chan_cap = 3, workers = [AtRange, AtRange],
      pc = SendLinks [''http://ok'', ''http://down''], printed = []\<rparr>"

text \<open>
  The number of goroutines \<open>main\<close> starts is \<open>int(numWorkers)\<close>. With
  \<open>-workers 9223372036854775808\<close>, which \<open>parseCLI\<close> accepts, that is negative, and no
  goroutine is started.
\<close>

definition example_stuck :: state where
  "example_stuck =
     \<lparr>link_chan = [''http://ok''], link_chan_cap = 1, link_chan_closed = True,
      result_chan = [], result_chan_cap = 1, workers = [], pc = Receive 0, printed = []\<rparr>"

section \<open>The scanner returns the tokens of the stream\<close>

lemma space_width_le3: "space_width d \<le> 3"
  by (simp add: space_width_def split: list.split)

lemma space_width_skip_spaces [simp]: "space_width (skip_spaces d) = 0"
proof (induction d rule: skip_spaces.induct)
  case (1 d)
  then show ?case by (cases "space_width d = 0") (simp_all add: skip_spaces.simps [of d])
qed

lemma split_ws_not_Nil [simp]: "split_ws d \<noteq> []"
  by (induction d rule: split_ws.induct) (auto split: list.split)

lemma tokens_Nil [simp]: "tokens [] = []"
  by (simp add: tokens_def)

lemma tokens_space: "0 < space_width d \<Longrightarrow> tokens d = tokens (drop (space_width d) d)"
  by (cases d) (simp_all add: tokens_def)

lemma tokens_skip_spaces: "tokens (skip_spaces d) = tokens d"
proof (induction d rule: skip_spaces.induct)
  case (1 d)
  show ?case
  proof (cases "space_width d = 0")
    case True
    then show ?thesis by (simp add: skip_spaces.simps [of d])
  next
    case False
    then have "tokens (skip_spaces d) = tokens (skip_spaces (drop (space_width d) d))"
      by (simp add: skip_spaces.simps [of d])
    also have "\<dots> = tokens (drop (space_width d) d)" using False by (rule "1.IH")
    also have "\<dots> = tokens d" using False by (simp add: tokens_space)
    finally show ?thesis .
  qed
qed

lemma word_end_stop: "drop (word_end d) d = [] \<or> 0 < space_width (drop (word_end d) d)"
  by (induction d) auto

lemma split_ws_word:
  "split_ws d = take (word_end d) d # tl (split_ws (drop (word_end d) d))"
proof (induction d)
  case Nil
  show ?case by simp
next
  case (Cons c cs)
  show ?case
  proof (cases "0 < space_width (c # cs)")
    case True
    then show ?thesis by simp
  next
    case False
    then show ?thesis using Cons by (simp split: list.split)
  qed
qed

lemma hd_split_ws_stop: "hd (split_ws (drop (word_end d) d)) = []"
proof -
  from word_end_stop [of d] show ?thesis
  proof
    assume "drop (word_end d) d = []"
    then show ?thesis by simp
  next
    assume sp: "0 < space_width (drop (word_end d) d)"
    then obtain c cs where "drop (word_end d) d = c # cs" by (cases "drop (word_end d) d") auto
    with sp show ?thesis by simp
  qed
qed

lemma tokens_word:
  "tokens d = (if word_end d = 0 then [] else [take (word_end d) d]) @ tokens (drop (word_end d) d)"
proof -
  let ?r = "drop (word_end d) d"
  have "split_ws ?r = hd (split_ws ?r) # tl (split_ws ?r)" by simp
  then have "split_ws ?r = [] # tl (split_ws ?r)" by (simp add: hd_split_ws_stop)
  then have r: "tokens ?r = filter (\<lambda>t. t \<noteq> []) (tl (split_ws ?r))"
    unfolding tokens_def by (metis (mono_tags, lifting) filter.simps(2))
  have le: "word_end d \<le> length d" by (rule word_end_le)
  have "tokens d = filter (\<lambda>t. t \<noteq> []) (take (word_end d) d # tl (split_ws ?r))"
    unfolding tokens_def by (subst split_ws_word) simp
  also have "\<dots> = (if word_end d = 0 then [] else [take (word_end d) d]) @ tokens ?r"
  proof -
    have "take (word_end d) d = [] \<longleftrightarrow> word_end d = 0" by (cases d) auto
    then show ?thesis by (simp add: r)
  qed
  finally show ?thesis .
qed

lemma Scan_Token_tokens:
  assumes "Scan d = Token t rest"
  shows "tokens d = t # tokens rest"
proof -
  let ?d1 = "skip_spaces d"
  let ?n = "word_end ?d1"
  let ?r = "drop ?n ?d1"
  have n: "?n \<noteq> 0"
  proof
    assume z: "?n = 0"
    then have "space_width ?r = 0" by simp
    with assms z show False by (simp add: Scan_def Let_def)
  qed
  have t: "t = take ?n ?d1" using assms by (simp add: Scan_def Let_def split: if_splits)
  have "tokens rest = tokens ?r"
  proof (cases "0 < space_width ?r")
    case True
    with assms have "rest = drop (space_width ?r) ?r"
      by (simp add: Scan_def Let_def split: if_splits)
    with True show ?thesis by (simp add: tokens_space [of ?r])
  next
    case False
    with assms show ?thesis by (simp add: Scan_def Let_def split: if_splits)
  qed
  moreover have "tokens d = tokens ?d1" by (simp add: tokens_skip_spaces)
  moreover have "tokens ?d1 = [take ?n ?d1] @ tokens ?r" using n by (subst tokens_word) simp
  ultimately show ?thesis using t by simp
qed

lemma Scan_NoToken_tokens:
  assumes "Scan d = NoToken"
  shows "tokens d = []"
proof -
  let ?d1 = "skip_spaces d"
  from assms have n: "word_end ?d1 = 0" by (simp add: Scan_def Let_def split: if_splits)
  with word_end_stop [of ?d1] have "?d1 = []" by simp
  then have "tokens ?d1 = []" by simp
  then show ?thesis by (simp add: tokens_skip_spaces)
qed

lemma Scan_TooLong_tokens:
  assumes "Scan d = TooLong"
  shows "\<exists>t \<in> set (tokens d). MaxScanTokenSize < length t + 3"
proof -
  let ?d1 = "skip_spaces d"
  let ?n = "word_end ?d1"
  let ?r = "drop ?n ?d1"
  have k: "space_width ?r \<le> 3" by (rule space_width_le3)
  from assms k have big: "MaxScanTokenSize < ?n + 3"
    by (simp add: Scan_def Let_def split: if_splits)
  then have n: "?n \<noteq> 0" by (simp add: MaxScanTokenSize_def)
  have "tokens d = tokens ?d1" by (simp add: tokens_skip_spaces)
  also have "\<dots> = [take ?n ?d1] @ tokens ?r" using n by (subst tokens_word) simp
  finally have "take ?n ?d1 \<in> set (tokens d)" by simp
  moreover have "length (take ?n ?d1) = ?n" using word_end_le [of ?d1] by simp
  ultimately show ?thesis using big by metis
qed

lemma scan_loop_fits:
  "\<not> too_long d \<Longrightarrow> scan_loop word d f cnt = (cnt + of_nat (spec_count word d), f)"
proof (induction word d f cnt rule: scan_loop.induct)
  case (1 word d f cnt)
  show ?case
  proof (cases "Scan d")
    case (Token t rest)
    with "1.prems" have nl: "\<not> too_long rest" by (simp add: too_long.simps [of d])
    have tk: "tokens d = t # tokens rest" using Token by (rule Scan_Token_tokens)
    have "scan_loop word d f cnt = scan_loop word rest f (if word = t then cnt + 1 else cnt)"
      using Token by (simp add: scan_loop.simps [of word d])
    also have "\<dots> = ((if word = t then cnt + 1 else cnt) + of_nat (spec_count word rest), f)"
      using Token nl by (rule "1.IH")
    also have "\<dots> = (cnt + of_nat (spec_count word d), f)"
      by (auto simp: spec_count_def tk)
    finally show ?thesis .
  next
    case TooLong
    with "1.prems" show ?thesis by (simp add: too_long.simps [of d])
  next
    case NoToken
    then have "tokens d = []" by (rule Scan_NoToken_tokens)
    with NoToken show ?thesis by (simp add: scan_loop.simps [of word d] spec_count_def)
  qed
qed

lemma scan_loop_too_long:
  "too_long d \<Longrightarrow> snd (scan_loop word d f cnt) = Some ErrTooLong"
proof (induction word d f cnt rule: scan_loop.induct)
  case (1 word d f cnt)
  show ?case
  proof (cases "Scan d")
    case (Token t rest)
    with "1.prems" have "too_long rest" by (simp add: too_long.simps [of d])
    with Token "1.IH" show ?thesis by (simp add: scan_loop.simps [of word d])
  next
    case TooLong
    then show ?thesis by (simp add: scan_loop.simps [of word d])
  next
    case NoToken
    with "1.prems" show ?thesis by (simp add: too_long.simps [of d])
  qed
qed

lemma scan_loop_absent:
  "word \<notin> set (tokens d) \<Longrightarrow> fst (scan_loop word d f cnt) = cnt"
proof (induction word d f cnt rule: scan_loop.induct)
  case (1 word d f cnt)
  show ?case
  proof (cases "Scan d")
    case (Token t rest)
    then have tk: "tokens d = t # tokens rest" by (rule Scan_Token_tokens)
    with "1.prems" have "word \<noteq> t" and "word \<notin> set (tokens rest)" by auto
    with Token "1.IH" show ?thesis by (simp add: scan_loop.simps [of word d])
  next
    case TooLong
    then show ?thesis by (simp add: scan_loop.simps [of word d])
  next
    case NoToken
    then show ?thesis by (simp add: scan_loop.simps [of word d])
  qed
qed

lemma short_tokens_fit:
  "\<forall>t \<in> set (tokens d). length t + 3 \<le> MaxScanTokenSize \<Longrightarrow> \<not> too_long d"
proof (induction d rule: too_long.induct)
  case (1 d)
  show ?case
  proof (cases "Scan d")
    case (Token t rest)
    then have "tokens d = t # tokens rest" by (rule Scan_Token_tokens)
    with "1.prems" have "\<forall>t \<in> set (tokens rest). length t + 3 \<le> MaxScanTokenSize" by simp
    with Token "1.IH" show ?thesis by (simp add: too_long.simps [of d])
  next
    case TooLong
    from Scan_TooLong_tokens [OF this] "1.prems" show ?thesis by fastforce
  next
    case NoToken
    then show ?thesis by (simp add: too_long.simps [of d])
  qed
qed

lemma sum_length_split_ws: "sum_list (map length (split_ws d)) \<le> length d"
proof (induction d rule: split_ws.induct)
  case 1
  show ?case by simp
next
  case (2 c cs)
  show ?case
  proof (cases "0 < space_width (c # cs)")
    case True
    with "2.IH"(1) have "sum_list (map length (split_ws (drop (space_width (c # cs)) (c # cs))))
        \<le> length (drop (space_width (c # cs)) (c # cs))" by simp
    with True show ?thesis by simp
  next
    case False
    with "2.IH"(2) have "sum_list (map length (split_ws cs)) \<le> length cs" by simp
    with False show ?thesis by (cases "split_ws cs") simp_all
  qed
qed

lemma length_filter_nonempty: "length (filter (\<lambda>t. t \<noteq> []) xs) \<le> sum_list (map length xs)"
proof (induction xs)
  case Nil
  show ?case by simp
next
  case (Cons x xs)
  then show ?case by (cases x) simp_all
qed

lemma spec_count_le_length: "spec_count word d \<le> length d"
proof -
  have "spec_count word d \<le> length (tokens d)" by (simp add: spec_count_def)
  also have "\<dots> \<le> sum_list (map length (split_ws d))"
    unfolding tokens_def by (rule length_filter_nonempty)
  also have "\<dots> \<le> length d" by (rule sum_length_split_ws)
  finally show ?thesis .
qed

lemma skip_spaces_id: "space_width d = 0 \<Longrightarrow> skip_spaces d = d"
  by (simp add: skip_spaces.simps [of d])

lemma length_xs_run [simp]: "length (xs_run n) = n"
  by (simp add: xs_run_def)

lemma space_width_x [simp]: "space_width (CHR ''x'' # cs) = 0"
  by (simp add: space_width_def)

lemma word_end_xs: "word_end (xs_run n @ d) = n + word_end d"
  by (induction n) (simp_all add: xs_run_def)

lemma space_width_xs: "0 < n \<Longrightarrow> space_width (xs_run n @ d) = 0"
  by (cases n) (simp_all add: xs_run_def)

lemma Scan_xs_space:
  assumes "MaxScanTokenSize \<le> n"
  shows "Scan (xs_run n @ CHR '' '' # d) = TooLong"
proof -
  let ?d = "xs_run n @ CHR '' '' # d"
  from assms have n: "0 < n" by (simp add: MaxScanTokenSize_def)
  then have sk: "skip_spaces ?d = ?d" by (simp add: skip_spaces_id space_width_xs)
  have sp: "space_width (CHR '' '' # d) = 1" by (simp add: space_width_def)
  have we: "word_end ?d = n" by (simp add: word_end_xs sp)
  have dr: "drop n ?d = CHR '' '' # d" by (simp add: xs_run_def)
  show ?thesis using assms n by (simp add: Scan_def Let_def sk we dr sp)
qed

lemma Scan_xs_end:
  assumes "MaxScanTokenSize \<le> n"
  shows "Scan (xs_run n) = TooLong"
proof -
  from assms have n: "0 < n" by (simp add: MaxScanTokenSize_def)
  then have "space_width (xs_run n @ []) = 0" by (rule space_width_xs)
  then have sk: "skip_spaces (xs_run n) = xs_run n" by (simp add: skip_spaces_id)
  have we: "word_end (xs_run n) = n" using word_end_xs [of n "[]"] by simp
  have dr: "drop n (xs_run n) = []" by (simp add: xs_run_def)
  show ?thesis using assms n by (simp add: Scan_def Let_def sk we dr)
qed

lemma tokens_xs_space:
  assumes "0 < n"
  shows "tokens (xs_run n @ CHR '' '' # d) = xs_run n # tokens d"
proof -
  let ?d = "xs_run n @ CHR '' '' # d"
  have sp: "space_width (CHR '' '' # d) = 1" by (simp add: space_width_def)
  have we: "word_end ?d = n" by (simp add: word_end_xs sp)
  have dr: "drop n ?d = CHR '' '' # d" and tk: "take n ?d = xs_run n" by (simp_all add: xs_run_def)
  have "tokens (CHR '' '' # d) = tokens d" using tokens_space [of "CHR '' '' # d"] by (simp add: sp)
  then show ?thesis using assms by (subst tokens_word) (simp add: we dr tk)
qed

lemma tokens_xs_end:
  assumes "0 < n"
  shows "tokens (xs_run n) = [xs_run n]"
proof -
  have we: "word_end (xs_run n) = n" using word_end_xs [of n "[]"] by simp
  have dr: "drop n (xs_run n) = []" and tk: "take n (xs_run n) = xs_run n" by (simp_all add: xs_run_def)
  show ?thesis using assms by (subst tokens_word) (simp add: we dr tk)
qed

lemma scan_loop_Token:
  "Scan d = Token t rest \<Longrightarrow>
   scan_loop word d f cnt = scan_loop word rest f (if word = t then cnt + 1 else cnt)"
  by (subst scan_loop.simps) simp

lemma scan_loop_TooLong: "Scan d = TooLong \<Longrightarrow> scan_loop word d f cnt = (cnt, Some ErrTooLong)"
  by (subst scan_loop.simps) simp

lemma scan_loop_NoToken: "Scan d = NoToken \<Longrightarrow> scan_loop word d f cnt = (cnt, f)"
  by (subst scan_loop.simps) simp

lemma too_long_Token: "Scan d = Token t rest \<Longrightarrow> too_long d = too_long rest"
  by (subst too_long.simps) simp

lemma too_long_TooLong: "Scan d = TooLong \<Longrightarrow> too_long d"
  by (subst too_long.simps) simp

lemma too_long_NoToken: "Scan d = NoToken \<Longrightarrow> \<not> too_long d"
  by (subst too_long.simps) simp

lemmas scan_eval =
  scan_loop_Token scan_loop_TooLong scan_loop_NoToken too_long_Token too_long_TooLong
  too_long_NoToken Scan_def skip_spaces.simps space_width_def MaxScanTokenSize_def

lemma countOccurrences_eq: "countOccurrences word s = scan_loop word (bytes s) (failure s) 0"
  by (simp add: countOccurrences_def split: prod.split option.split)

lemma countOccurrences_fits:
  "\<not> too_long (bytes s) \<Longrightarrow>
   countOccurrences word s = (word_of_nat (spec_count word (bytes s)), failure s)"
  by (simp add: countOccurrences_eq scan_loop_fits)

lemma unat_spec_count:
  assumes "length d < 2 ^ 64"
  shows "unat (word_of_nat (spec_count word d) :: 64 word) = spec_count word d"
proof -
  have "spec_count word d \<le> length d" by (rule spec_count_le_length)
  with assms have "spec_count word d < 2 ^ 64" by simp
  then show ?thesis by (simp add: unat_of_nat)
qed

lemma example_cat: "countOccurrences ''cat'' \<lparr>bytes = ''a cat sat on a cat mat'', failure = None\<rparr> = (2, None)"
  by (simp add: countOccurrences_eq scan_eval)

lemma example_Cat: "countOccurrences ''Cat'' \<lparr>bytes = ''cat cat'', failure = None\<rparr> = (0, None)"
  by (simp add: countOccurrences_eq scan_eval)

lemma example_empty: "countOccurrences word \<lparr>bytes = [], failure = None\<rparr> = (0, None)"
  by (simp add: countOccurrences_eq scan_eval)

lemma tokens_cat: "tokens ''cat'' = [''cat'']"
  by (simp add: tokens_def space_width_def)

lemma not_too_long_example: "\<not> too_long ''a cat sat on a cat mat''"
  by (simp add: scan_eval)

lemma spec_count_example: "spec_count ''cat'' ''a cat sat on a cat mat'' = 2"
  by (simp add: spec_count_def tokens_def space_width_def)

lemma countOccurrences_long_then_cat:
  "countOccurrences ''cat'' long_then_cat = (0, Some ErrTooLong)"
proof -
  have "Scan (xs_run 65536 @ CHR '' '' # ''cat'') = TooLong"
    by (rule Scan_xs_space) (simp add: MaxScanTokenSize_def)
  then show ?thesis
    by (simp add: countOccurrences_eq long_then_cat_def scan_loop_TooLong)
qed

lemma spec_count_long_then_cat: "spec_count ''cat'' (bytes long_then_cat) = 1"
proof -
  have "tokens (xs_run 65536 @ CHR '' '' # ''cat'') = xs_run 65536 # tokens ''cat''"
    by (rule tokens_xs_space) simp
  moreover have "xs_run 65536 \<noteq> ''cat''"
  proof
    assume "xs_run 65536 = ''cat''"
    then have "length (xs_run 65536) = length ''cat''" by simp
    then show False by simp
  qed
  ultimately show ?thesis by (simp add: spec_count_def long_then_cat_def tokens_cat)
qed

lemma countOccurrences_long_only: "countOccurrences ''cat'' long_only = (0, Some ErrTooLong)"
proof -
  have "Scan (xs_run 65537) = TooLong"
    by (rule Scan_xs_end) (simp add: MaxScanTokenSize_def)
  then show ?thesis
    by (simp add: countOccurrences_eq long_only_def scan_loop_TooLong)
qed

lemma tokens_long_only: "''cat'' \<notin> set (tokens (bytes long_only))"
proof -
  have "tokens (xs_run 65537) = [xs_run 65537]" by (rule tokens_xs_end) simp
  moreover have "xs_run 65537 \<noteq> ''cat''"
  proof
    assume "xs_run 65537 = ''cat''"
    then have "length (xs_run 65537) = length ''cat''" by simp
    then show False by simp
  qed
  ultimately show ?thesis by (simp add: long_only_def)
qed

lemma countOccurrences_err:
  "snd (countOccurrences word s) = (if too_long (bytes s) then Some ErrTooLong else failure s)"
  by (simp add: countOccurrences_eq scan_loop_too_long scan_loop_fits)

lemma countOccurrences_absent:
  "word \<notin> set (tokens (bytes s)) \<Longrightarrow> fst (countOccurrences word s) = 0"
  by (simp add: countOccurrences_eq scan_loop_absent)

section \<open>The claims about \<open>countOccurrences\<close>\<close>

text \<open>
  C2 (as amended). Whenever the scan is not stopped by a word that does not fit the
  scanner's buffer, \<open>countOccurrences\<close> returns, as a 64-bit unsigned value, the number
  of whitespace-delimited tokens of the stream that are byte-for-byte equal to the
  target; for a stream shorter than \<open>2 ^ 64\<close> bytes that value is the number itself.
  The scan is not stopped when every token has at most \<open>MaxScanTokenSize - 3\<close> bytes.
  On \<open>a cat sat on a cat mat\<close> the count of \<open>cat\<close> is 2, and on \<open>cat cat\<close> the
  count of \<open>Cat\<close> is 0.
\<close>

theorem C2_count_is_number_of_matching_tokens:
  "(\<not> too_long (bytes s) \<longrightarrow>
      fst (countOccurrences word s) = word_of_nat (spec_count word (bytes s)) \<and>
      (length (bytes s) < 2 ^ 64 \<longrightarrow>
         unat (fst (countOccurrences word s)) = spec_count word (bytes s))) \<and>
   ((\<forall>t \<in> set (tokens (bytes s)). length t + 3 \<le> MaxScanTokenSize) \<longrightarrow>
      \<not> too_long (bytes s)) \<and>
   countOccurrences ''cat'' \<lparr>bytes = ''a cat sat on a cat mat'', failure = None\<rparr> = (2, None) \<and>
   countOccurrences ''Cat'' \<lparr>bytes = ''cat cat'', failure = None\<rparr> = (0, None)"
proof (intro conjI impI)
  assume "\<not> too_long (bytes s)"
  then show c: "fst (countOccurrences word s) = word_of_nat (spec_count word (bytes s))"
    by (simp add: countOccurrences_fits)
  assume "length (bytes s) < 2 ^ 64"
  then show "unat (fst (countOccurrences word s)) = spec_count word (bytes s)"
    by (simp add: c unat_spec_count)
next
  assume "\<forall>t \<in> set (tokens (bytes s)). length t + 3 \<le> MaxScanTokenSize"
  then show "\<not> too_long (bytes s)" by (rule short_tokens_fit)
next
  show "countOccurrences ''cat'' \<lparr>bytes = ''a cat sat on a cat mat'', failure = None\<rparr> = (2, None)"
    by (rule example_cat)
next
  show "countOccurrences ''Cat'' \<lparr>bytes = ''cat cat'', failure = None\<rparr> = (0, None)"
    by (rule example_Cat)
qed

theorem C2_witness:
  "\<not> too_long (bytes \<lparr>bytes = ''the cat  and the cat'', failure = None\<rparr>) \<and>
   length (bytes \<lparr>bytes = ''the cat  and the cat'', failure = None\<rparr>) < 2 ^ 64 \<and>
   list_all (\<lambda>t. length t + 3 \<le> MaxScanTokenSize) (tokens ''the cat  and the cat'') \<and>
   spec_count ''cat'' ''the cat  and the cat'' = 2 \<and>
   unat (fst (countOccurrences ''cat'' \<lparr>bytes = ''the cat  and the cat'', failure = None\<rparr>)) = 2"
proof -
  let ?s = "\<lparr>bytes = ''the cat  and the cat'', failure = None\<rparr>"
  have tk: "tokens ''the cat  and the cat'' = [''the'', ''cat'', ''and'', ''the'', ''cat'']"
    by (simp add: tokens_def space_width_def)
  have fit: "\<forall>t \<in> set (tokens ''the cat  and the cat''). length t + 3 \<le> MaxScanTokenSize"
    by (simp add: tk MaxScanTokenSize_def)
  have n: "spec_count ''cat'' ''the cat  and the cat'' = 2"
    by (simp add: spec_count_def tk)
  from fit have fit': "list_all (\<lambda>t. length t + 3 \<le> MaxScanTokenSize) (tokens ''the cat  and the cat'')"
    by (simp add: list_all_iff)
  from C2_count_is_number_of_matching_tokens [of ?s "''cat''"] fit fit' n
  show ?thesis by simp
qed

text \<open>
  The claim C2 as stated fails on a stream that holds a word of 65536 bytes before the
  word \<open>cat\<close>: the scan stops at the long word, and the count returned is 0, not 1.
\<close>

theorem C2_counterexample:
  "unat (fst (countOccurrences ''cat'' long_then_cat)) \<noteq> spec_count ''cat'' (bytes long_then_cat)"
  by (simp add: countOccurrences_long_then_cat spec_count_long_then_cat)

text \<open>
  C3 (as amended). When the target is not among the tokens of the stream, the count
  returned is 0. The error returned is \<open>nil\<close> when, moreover, the reader ends with
  \<open>io.EOF\<close> and the scan is not stopped by a word that does not fit the buffer. On the
  empty stream the result is 0 and \<open>nil\<close>.
\<close>

theorem C3_absent_target_counts_zero:
  "(word \<notin> set (tokens (bytes s)) \<longrightarrow> fst (countOccurrences word s) = 0) \<and>
   (failure s = None \<and> \<not> too_long (bytes s) \<longrightarrow> snd (countOccurrences word s) = None) \<and>
   countOccurrences word \<lparr>bytes = [], failure = None\<rparr> = (0, None)"
  by (simp add: countOccurrences_absent countOccurrences_err example_empty)

theorem C3_witness:
  "''dog'' \<notin> set (tokens (bytes \<lparr>bytes = ''a cat sat'', failure = None\<rparr>)) \<and>
   failure \<lparr>bytes = ''a cat sat'', failure = None\<rparr> = None \<and>
   \<not> too_long (bytes \<lparr>bytes = ''a cat sat'', failure = None\<rparr>) \<and>
   countOccurrences ''dog'' \<lparr>bytes = ''a cat sat'', failure = None\<rparr> = (0, None)"
proof -
  let ?s = "\<lparr>bytes = ''a cat sat'', failure = None\<rparr>"
  have a: "''dog'' \<notin> set (tokens (bytes ?s))" by (simp add: tokens_def space_width_def)
  have b: "\<not> too_long (bytes ?s)" by (simp add: scan_eval)
  from C3_absent_target_counts_zero [of "''dog''" ?s] a b
  have "fst (countOccurrences ''dog'' ?s) = 0 \<and> snd (countOccurrences ''dog'' ?s) = None"
    by simp
  then have "countOccurrences ''dog'' ?s = (0, None)" by (simp add: prod_eq_iff)
  with a b show ?thesis by simp
qed

text \<open>
  The claim C3 as stated fails on a stream that is a single word of 65537 bytes: the
  target \<open>cat\<close> is not a token of it, and the error returned is not \<open>nil\<close>.
\<close>

theorem C3_counterexample:
  "''cat'' \<notin> set (tokens (bytes long_only)) \<and> failure long_only = None \<and>
   snd (countOccurrences ''cat'' long_only) \<noteq> None"
  by (simp add: tokens_long_only countOccurrences_long_only) (simp add: long_only_def)

text \<open>
  C4. When the reader fails after some bytes, \<open>countOccurrences\<close> returns an error.
  When the scan gets as far as the failure, the error is the reader's and the count is
  the number of matching tokens in the bytes read before it. In \<open>wordsOnPage\<close>, the
  Result sent for a 200 response carries the link, that count and that error.
\<close>

theorem C4_read_failure_returns_partial_count:
  "failure s = Some e \<Longrightarrow>
   snd (countOccurrences word s) \<noteq> None \<and>
   (\<not> too_long (bytes s) \<longrightarrow>
      countOccurrences word s = (word_of_nat (spec_count word (bytes s)), Some e)) \<and>
   (net l = Response 200 s \<longrightarrow>
      wordsOnPage_body word net l =
        [\<lparr>link = l, count = fst (countOccurrences word s), err = snd (countOccurrences word s)\<rparr>])"
proof (intro conjI impI)
  assume f: "failure s = Some e"
  then show "snd (countOccurrences word s) \<noteq> None" by (simp add: countOccurrences_err)
  show "countOccurrences word s = (word_of_nat (spec_count word (bytes s)), Some e)"
    if "\<not> too_long (bytes s)" using that f by (simp add: countOccurrences_fits)
  show "wordsOnPage_body word net l =
      [\<lparr>link = l, count = fst (countOccurrences word s), err = snd (countOccurrences word s)\<rparr>]"
    if "net l = Response 200 s" using that by (simp add: wordsOnPage_body_def split: prod.split)
qed

theorem C4_witness:
  "failure \<lparr>bytes = ''cat or cat then ca'', failure = Some (ReadError ''connection reset'')\<rparr>
     = Some (ReadError ''connection reset'') \<and>
   \<not> too_long ''cat or cat then ca'' \<and>
   wordsOnPage_body ''cat''
     (\<lambda>l. Response 200
        \<lparr>bytes = ''cat or cat then ca'', failure = Some (ReadError ''connection reset'')\<rparr>)
     ''http://a'' =
     [\<lparr>link = ''http://a'', count = 2, err = Some (ReadError ''connection reset'')\<rparr>]"
proof -
  let ?s = "\<lparr>bytes = ''cat or cat then ca'', failure = Some (ReadError ''connection reset'')\<rparr>"
  have a: "\<not> too_long ''cat or cat then ca''" by (simp add: scan_eval)
  have n: "spec_count ''cat'' ''cat or cat then ca'' = 2"
    by (simp add: spec_count_def tokens_def space_width_def)
  from C4_read_failure_returns_partial_count
         [of ?s "ReadError ''connection reset''" "''cat''" "\<lambda>l. Response 200 ?s" "''http://a''"] a n
  show ?thesis by simp
qed

section \<open>One iteration sends one Result\<close>

lemma wordsOnPage_body_single: "\<exists>r. wordsOnPage_body word net l = [r] \<and> link r = l"
  by (simp add: wordsOnPage_body_def split: get_outcome.split prod.split)

lemma size_results_for [simp]: "size (results_for c l) = 1"
proof -
  obtain r where "wordsOnPage_body (cfg_word c) (http_Get c) l = [r]"
    using wordsOnPage_body_single by blast
  then show ?thesis by (simp add: results_for_def)
qed

lemma link_results_for: "r \<in># results_for c l \<Longrightarrow> link r = l"
proof -
  assume a: "r \<in># results_for c l"
  obtain r' where "wordsOnPage_body (cfg_word c) (http_Get c) l = [r']" and "link r' = l"
    using wordsOnPage_body_single by blast
  with a show ?thesis by (simp add: results_for_def)
qed

lemma size_sum_list_mset: "size (\<Sum>x\<leftarrow>xs. f x) = (\<Sum>x\<leftarrow>xs. size (f x :: 'a multiset))"
  by (induction xs) simp_all

lemma size_sum_results_for [simp]: "size (\<Sum>l\<leftarrow>ls. results_for c l) = length ls"
  by (induction ls) simp_all

lemma size_total [simp]: "size (total c) = length (links c)"
  by (simp add: total_def)


lemma sum_list_update_mset:
  "k < length ws \<Longrightarrow>
   (\<Sum>w\<leftarrow>ws[k := v]. f w) + f (ws ! k) = (\<Sum>w\<leftarrow>ws. f w) + (f v :: 'a multiset)"
proof (induction ws arbitrary: k)
  case Nil
  then show ?case by simp
next
  case (Cons w ws)
  show ?case
  proof (cases k)
    case 0
    then show ?thesis by simp
  next
    case (Suc j)
    with Cons.prems have "j < length ws" by simp
    from Cons.IH [OF this] Suc show ?thesis by (simp add: ac_simps)
  qed
qed

lemma sum_list_update_nat:
  "k < length ws \<Longrightarrow>
   (\<Sum>w\<leftarrow>ws[k := v]. f w) + f (ws ! k) = (\<Sum>w\<leftarrow>ws. f w) + (f v :: nat)"
proof (induction ws arbitrary: k)
  case Nil
  then show ?case by simp
next
  case (Cons w ws)
  show ?case
  proof (cases k)
    case 0
    then show ?thesis by simp
  next
    case (Suc j)
    with Cons.prems have "j < length ws" by simp
    from Cons.IH [OF this] Suc show ?thesis by simp
  qed
qed

section \<open>The invariant holds in every run\<close>

lemma size_owed:
  "size (owed c s) =
     length (printed s) + length (result_chan s) + size (\<Sum>w\<leftarrow>workers s. pending c w) +
     length (link_chan s) + length (unsent c (pc s))"
  by (simp add: owed_def)

lemma inv_counts:
  assumes "inv c s"
  shows "length (printed s) + length (result_chan s) + size (\<Sum>w\<leftarrow>workers s. pending c w) +
     length (link_chan s) + length (unsent c (pc s)) = length (links c)"
proof -
  from assms have "owed c s = total c" by (simp add: inv_def)
  then have "size (owed c s) = size (total c)" by simp
  then show ?thesis by (simp add: size_owed)
qed

lemma inv_init: "inv c (init c)"
  by (simp add: inv_def init_def owed_def total_def)

lemma inv_main_step:
  assumes i: "inv c s" and st: "main_step c s = Some s'"
  shows "inv c s'"
proof (cases "pc s")
  case (Spawn i)
  with i st show ?thesis
    by (auto simp: main_step_def inv_def owed_def total_def split: if_splits)
next
  case (SendLinks ls)
  show ?thesis
  proof (cases ls)
    case Nil
    with SendLinks i st show ?thesis
      by (auto simp: main_step_def inv_def owed_def)
  next
    case (Cons l ls')
    with SendLinks i st show ?thesis
      by (auto simp: main_step_def inv_def owed_def ac_simps split: if_splits)
  qed
next
  case (Receive n)
  show ?thesis
  proof (cases "n < length (links c)")
    case True
    with Receive i st show ?thesis
      by (auto simp: main_step_def inv_def owed_def split: list.splits)
  next
    case False
    from i Receive have n: "n = length (printed s)" by (simp add: inv_def)
    from inv_counts [OF i] have "length (printed s) \<le> length (links c)" by simp
    with False n have "length (printed s) = length (links c)" by simp
    with Receive False i st show ?thesis
      by (auto simp: main_step_def inv_def owed_def)
  qed
next
  case Exit
  with st show ?thesis by (simp add: main_step_def)
qed

lemma worker_step_enabled:
  "worker_step c k s = Some s' \<Longrightarrow> k < length (workers s) \<and> pc s \<noteq> Exit"
  by (simp add: worker_step_def split: if_splits)

lemma worker_step_cases:
  assumes "worker_step c k s = Some s'"
  obtains
    (recv) l ls where "workers s ! k = AtRange" "link_chan s = l # ls"
      "s' = s\<lparr>link_chan := ls, workers := (workers s)[k := Fetching l]\<rparr>"
  | (ret) "workers s ! k = AtRange" "link_chan s = []" "link_chan_closed s"
      "s' = s\<lparr>workers := (workers s)[k := Returned]\<rparr>"
  | (get) l where "workers s ! k = Fetching l"
      "s' = s\<lparr>workers := (workers s)[k := Sending (wordsOnPage_body (cfg_word c) (http_Get c) l)]\<rparr>"
  | (loop) "workers s ! k = Sending []" "s' = s\<lparr>workers := (workers s)[k := AtRange]\<rparr>"
  | (send) r rs where "workers s ! k = Sending (r # rs)"
      "length (result_chan s) < result_chan_cap s"
      "s' = s\<lparr>result_chan := result_chan s @ [r], workers := (workers s)[k := Sending rs]\<rparr>"
  using assms
  by (auto simp: worker_step_def split: if_splits worker.splits list.splits)

lemma pending_update:
  assumes "k < length ws" and "pending c (ws ! k) + a = pending c v + b"
  shows "(\<Sum>w\<leftarrow>ws[k := v]. pending c w) + b = (\<Sum>w\<leftarrow>ws. pending c w) + a"
proof -
  from sum_list_update_mset [OF assms(1), of "pending c" v]
  have "(\<Sum>w\<leftarrow>ws[k := v]. pending c w) + pending c (ws ! k) + a
      = (\<Sum>w\<leftarrow>ws. pending c w) + pending c v + a" by simp
  also have "(\<Sum>w\<leftarrow>ws[k := v]. pending c w) + pending c (ws ! k) + a
      = (\<Sum>w\<leftarrow>ws[k := v]. pending c w) + (pending c (ws ! k) + a)" by (simp add: ac_simps)
  finally have "(\<Sum>w\<leftarrow>ws[k := v]. pending c w) + (pending c v + b)
      = (\<Sum>w\<leftarrow>ws. pending c w) + pending c v + a" by (simp only: assms(2))
  then have "((\<Sum>w\<leftarrow>ws[k := v]. pending c w) + b) + pending c v
      = ((\<Sum>w\<leftarrow>ws. pending c w) + a) + pending c v" by (simp only: ac_simps)
  then show ?thesis by (simp only: add_right_cancel)
qed

lemma Returned_update:
  "Returned \<in> set (ws[k := v]) \<Longrightarrow> v \<noteq> Returned \<Longrightarrow> Returned \<in> set ws"
  using set_update_subset_insert [of ws k v] by auto

lemma inv_worker_step:
  assumes i: "inv c s" and st: "worker_step c k s = Some s'"
  shows "inv c s'"
proof -
  from st have k: "k < length (workers s)" and pc: "pc s \<noteq> Exit"
    using worker_step_enabled by blast+
  from i have ow: "owed c s = total c" by (simp add: inv_def)
  from st show ?thesis
  proof (cases rule: worker_step_cases)
    case (recv l ls)
    have "(\<Sum>w\<leftarrow>(workers s)[k := Fetching l]. pending c w) + {#}
        = (\<Sum>w\<leftarrow>workers s. pending c w) + results_for c l"
      using k recv(1) by (intro pending_update) simp_all
    with ow recv have "owed c s' = total c" by (simp add: owed_def ac_simps)
    moreover from i recv k have "Returned \<notin> set (workers s)" by (auto simp: inv_def)
    then have "Returned \<notin> set (workers s')" using recv(3) Returned_update by fastforce
    ultimately show ?thesis using i recv
      by (cases "pc s") (simp_all add: inv_def)
  next
    case ret
    have "(\<Sum>w\<leftarrow>(workers s)[k := Returned]. pending c w) + {#}
        = (\<Sum>w\<leftarrow>workers s. pending c w) + {#}"
      using k ret(1) by (intro pending_update) simp_all
    with ow ret have "owed c s' = total c" by (simp add: owed_def)
    with i ret show ?thesis by (cases "pc s") (simp_all add: inv_def)
  next
    case (get l)
    have "(\<Sum>w\<leftarrow>(workers s)[k := Sending (wordsOnPage_body (cfg_word c) (http_Get c) l)].
            pending c w) + {#} = (\<Sum>w\<leftarrow>workers s. pending c w) + {#}"
      using k get(1) by (intro pending_update) (simp_all add: results_for_def)
    with ow get have "owed c s' = total c" by (simp add: owed_def)
    moreover have "Returned \<in> set (workers s') \<Longrightarrow> Returned \<in> set (workers s)"
      using get(2) Returned_update by fastforce
    ultimately show ?thesis using i get by (cases "pc s") (auto simp: inv_def)
  next
    case loop
    have "(\<Sum>w\<leftarrow>(workers s)[k := AtRange]. pending c w) + {#}
        = (\<Sum>w\<leftarrow>workers s. pending c w) + {#}"
      using k loop(1) by (intro pending_update) simp_all
    with ow loop have "owed c s' = total c" by (simp add: owed_def)
    moreover have "Returned \<in> set (workers s') \<Longrightarrow> Returned \<in> set (workers s)"
      using loop(2) Returned_update by fastforce
    ultimately show ?thesis using i loop by (cases "pc s") (auto simp: inv_def)
  next
    case (send r rs)
    have "(\<Sum>w\<leftarrow>(workers s)[k := Sending rs]. pending c w) + {#r#}
        = (\<Sum>w\<leftarrow>workers s. pending c w) + {#}"
      using k send(1) by (intro pending_update) simp_all
    then have "(\<Sum>w\<leftarrow>workers s. pending c w)
        = add_mset r (\<Sum>w\<leftarrow>(workers s)[k := Sending rs]. pending c w)" by simp
    with ow send have "owed c s' = total c" by (simp add: owed_def ac_simps)
    moreover have "Returned \<in> set (workers s') \<Longrightarrow> Returned \<in> set (workers s)"
      using send(3) Returned_update by fastforce
    ultimately show ?thesis using i send by (cases "pc s") (auto simp: inv_def)
  qed
qed

lemma inv_step: "inv c s \<Longrightarrow> step c a s = Some s' \<Longrightarrow> inv c s'"
  by (cases a) (auto simp: step_def intro: inv_main_step inv_worker_step)

lemma inv_run: "inv c s \<Longrightarrow> run c sched s = Some s' \<Longrightarrow> inv c s'"
proof (induction sched arbitrary: s)
  case Nil
  then show ?case by simp
next
  case (Cons a sched)
  from Cons.prems(2) obtain s1 where s1: "step c a s = Some s1" and r: "run c sched s1 = Some s'"
    by (auto simp: bind_eq_Some_conv)
  from Cons.prems(1) s1 have "inv c s1" by (rule inv_step)
  then show ?case using r by (rule Cons.IH)
qed

lemma inv_reachable: "run c sched (init c) = Some s \<Longrightarrow> inv c s"
  using inv_init by (rule inv_run)

section \<open>No send blocks\<close>

lemma size_pending_le:
  assumes "k < length ws"
  shows "size (pending c (ws ! k)) \<le> size (\<Sum>w\<leftarrow>ws. pending c w)"
proof -
  have "size (\<Sum>w\<leftarrow>ws. pending c w) = sum_list (map (\<lambda>w. size (pending c w)) ws)"
    by (rule size_sum_list_mset)
  moreover have "map (\<lambda>w. size (pending c w)) ws ! k \<le> sum_list (map (\<lambda>w. size (pending c w)) ws)"
    using assms by (intro elem_le_sum_list) simp
  ultimately show ?thesis using assms by simp
qed

lemma result_send_enabled:
  assumes i: "inv c s" and k: "k < length (workers s)" and w: "workers s ! k = Sending (r # rs)"
  shows "length (result_chan s) < result_chan_cap s"
proof -
  from size_pending_le [OF k, of c] w have "1 \<le> size (\<Sum>w\<leftarrow>workers s. pending c w)" by simp
  with inv_counts [OF i] have "length (result_chan s) < length (links c)" by simp
  with i show ?thesis by (simp add: inv_def)
qed

lemma link_send_enabled:
  assumes i: "inv c s" and p: "pc s = SendLinks (l # ls)"
  shows "length (link_chan s) < link_chan_cap s"
proof -
  from inv_counts [OF i] p have "length (link_chan s) < length (links c)" by simp
  with i show ?thesis by (simp add: inv_def)
qed

section \<open>Every run ends, and it ends with \<open>main\<close> returned\<close>

lemma weight_main_step:
  assumes "main_step c s = Some s'"
  shows "weight c s' < weight c s"
proof (cases "pc s")
  case (Spawn i)
  show ?thesis
  proof (cases "i < sint (numWorkers c)")
    case True
    then have "nat (sint (numWorkers c) - i) = Suc (nat (sint (numWorkers c) - (i + 1)))" by simp
    with True Spawn assms show ?thesis by (auto simp: main_step_def weight_def)
  next
    case False
    with Spawn assms show ?thesis by (auto simp: main_step_def weight_def)
  qed
next
  case (SendLinks ls)
  with assms show ?thesis
    by (cases ls) (auto simp: main_step_def weight_def split: if_splits)
next
  case (Receive n)
  with assms show ?thesis
    by (auto simp: main_step_def weight_def split: if_splits list.splits)
next
  case Exit
  with assms show ?thesis by (simp add: main_step_def)
qed

lemma weight_update:
  assumes "k < length ws" and "worker_weight c v + d < worker_weight c (ws ! k) + e"
  shows "(\<Sum>w\<leftarrow>ws[k := v]. worker_weight c w) + d < (\<Sum>w\<leftarrow>ws. worker_weight c w) + e"
  using sum_list_update_nat [OF assms(1), of "worker_weight c" v] assms(2) by simp

lemma weight_worker_step:
  assumes st: "worker_step c k s = Some s'"
  shows "weight c s' < weight c s"
proof -
  from st have k: "k < length (workers s)" using worker_step_enabled by blast
  from st show ?thesis
  proof (cases rule: worker_step_cases)
    case (recv l ls)
    have "(\<Sum>w\<leftarrow>(workers s)[k := Fetching l]. worker_weight c w) + 0
        < (\<Sum>w\<leftarrow>workers s. worker_weight c w) + link_weight c l"
      using k recv(1) by (intro weight_update) simp_all
    with recv show ?thesis by (simp add: weight_def)
  next
    case ret
    have "(\<Sum>w\<leftarrow>(workers s)[k := Returned]. worker_weight c w) + 0
        < (\<Sum>w\<leftarrow>workers s. worker_weight c w) + 0"
      using k ret(1) by (intro weight_update) simp_all
    with ret show ?thesis by (simp add: weight_def)
  next
    case (get l)
    have "(\<Sum>w\<leftarrow>(workers s)[k := Sending (wordsOnPage_body (cfg_word c) (http_Get c) l)].
            worker_weight c w) + 0 < (\<Sum>w\<leftarrow>workers s. worker_weight c w) + 0"
      using k get(1) by (intro weight_update) (simp_all add: link_weight_def)
    with get show ?thesis by (simp add: weight_def)
  next
    case loop
    have "(\<Sum>w\<leftarrow>(workers s)[k := AtRange]. worker_weight c w) + 0
        < (\<Sum>w\<leftarrow>workers s. worker_weight c w) + 0"
      using k loop(1) by (intro weight_update) simp_all
    with loop show ?thesis by (simp add: weight_def)
  next
    case (send r rs)
    have "(\<Sum>w\<leftarrow>(workers s)[k := Sending rs]. worker_weight c w) + 1
        < (\<Sum>w\<leftarrow>workers s. worker_weight c w) + 0"
      using k send(1) by (intro weight_update) simp_all
    with send show ?thesis by (simp add: weight_def)
  qed
qed

lemma weight_step: "step c a s = Some s' \<Longrightarrow> weight c s' < weight c s"
  by (cases a) (auto simp: step_def intro: weight_main_step weight_worker_step)

lemma weight_run: "run c sched s = Some s' \<Longrightarrow> length sched + weight c s' \<le> weight c s"
proof (induction sched arbitrary: s)
  case Nil
  then show ?case by simp
next
  case (Cons a sched)
  from Cons.prems obtain s1 where s1: "step c a s = Some s1" and r: "run c sched s1 = Some s'"
    by (auto simp: bind_eq_Some_conv)
  from weight_step [OF s1] Cons.IH [OF r] show ?case by simp
qed

lemma pending_idle_empty:
  "\<forall>w \<in> set ws. w = AtRange \<or> w = Returned \<Longrightarrow> (\<Sum>w\<leftarrow>ws. pending c w) = {#}"
  by (induction ws) auto

lemma busy_worker_enabled:
  assumes i: "inv c s" and p: "pc s \<noteq> Exit" and k: "k < length (workers s)"
    and w: "workers s ! k \<noteq> AtRange" "workers s ! k \<noteq> Returned"
  shows "\<exists>s'. worker_step c k s = Some s'"
proof (cases "workers s ! k")
  case (Fetching l)
  with p k show ?thesis by (simp add: worker_step_def)
next
  case (Sending rs)
  show ?thesis
  proof (cases rs)
    case Nil
    with Sending p k show ?thesis by (simp add: worker_step_def)
  next
    case (Cons r rs')
    with Sending have "workers s ! k = Sending (r # rs')" by simp
    with i k have "length (result_chan s) < result_chan_cap s" by (rule result_send_enabled)
    with Sending Cons p k show ?thesis by (simp add: worker_step_def)
  qed
qed (use w in simp_all)

lemma progress:
  assumes i: "inv c s" and p: "pc s \<noteq> Exit" and nw: "0 < sint (numWorkers c)"
  shows "\<exists>a s'. step c a s = Some s'"
proof (cases "\<exists>s'. main_step c s = Some s'")
  case True
  then obtain s' where "step c Main s = Some s'" by (auto simp: step_def)
  then show ?thesis by blast
next
  case False
  then have blocked: "main_step c s = None" by simp
  have "\<exists>n. pc s = Receive n \<and> n < length (links c) \<and> result_chan s = []"
  proof (cases "pc s")
    case (Spawn j)
    with blocked show ?thesis by (simp add: main_step_def split: if_splits)
  next
    case (SendLinks ls)
    show ?thesis
    proof (cases ls)
      case Nil
      with SendLinks blocked show ?thesis by (simp add: main_step_def)
    next
      case (Cons l ls')
      with SendLinks have "pc s = SendLinks (l # ls')" by simp
      with i have "length (link_chan s) < link_chan_cap s" by (rule link_send_enabled)
      with SendLinks Cons blocked show ?thesis by (simp add: main_step_def)
    qed
  next
    case (Receive n)
    with blocked show ?thesis by (simp add: main_step_def split: if_splits list.splits)
  next
    case Exit
    with p show ?thesis by simp
  qed
  then obtain n where rc: "pc s = Receive n" "n < length (links c)" "result_chan s = []" by blast
  from i rc have len: "length (workers s) = nat (sint (numWorkers c))" and n: "n = length (printed s)"
    by (simp_all add: inv_def)
  show ?thesis
  proof (cases "\<exists>k < length (workers s). workers s ! k \<noteq> AtRange \<and> workers s ! k \<noteq> Returned")
    case True
    then obtain k where "k < length (workers s)" "workers s ! k \<noteq> AtRange" "workers s ! k \<noteq> Returned"
      by blast
    with i p obtain s' where "worker_step c k s = Some s'" using busy_worker_enabled by blast
    then have "step c (Worker k) s = Some s'" by (simp add: step_def)
    then show ?thesis by blast
  next
    case False
    then have idle: "\<forall>w \<in> set (workers s). w = AtRange \<or> w = Returned"
      by (auto simp: in_set_conv_nth)
    then have "(\<Sum>w\<leftarrow>workers s. pending c w) = {#}" by (rule pending_idle_empty)
    with inv_counts [OF i] rc n have "link_chan s \<noteq> []" by auto
    then obtain l ls where lc: "link_chan s = l # ls" by (cases "link_chan s") auto
    with i have nr: "Returned \<notin> set (workers s)" by (auto simp: inv_def)
    from len nw have k0: "0 < length (workers s)" by simp
    then have "workers s ! 0 \<in> set (workers s)" by simp
    with idle nr have "workers s ! 0 = AtRange" by metis
    with lc p k0 have "\<exists>s'. worker_step c 0 s = Some s'" by (simp add: worker_step_def)
    then obtain s' where "step c (Worker 0) s = Some s'" by (auto simp: step_def)
    then show ?thesis by blast
  qed
qed

lemma run_append: "run c (xs @ ys) s = Option.bind (run c xs s) (run c ys)"
  by (induction xs arbitrary: s) (auto split: Option.bind_split)

lemma completion:
  assumes "inv c s" and nw: "0 < sint (numWorkers c)"
  shows "\<exists>sched s'. run c sched s = Some s' \<and> pc s' = Exit"
  using assms(1)
proof (induction "weight c s" arbitrary: s rule: less_induct)
  case less
  show ?case
  proof (cases "pc s = Exit")
    case True
    then have "run c [] s = Some s \<and> pc s = Exit" by simp
    then show ?thesis by blast
  next
    case False
    with less.prems nw obtain a s1 where s1: "step c a s = Some s1" using progress by blast
    then have "weight c s1 < weight c s" by (rule weight_step)
    moreover from less.prems s1 have "inv c s1" by (rule inv_step)
    ultimately obtain sched s' where "run c sched s1 = Some s'" "pc s' = Exit"
      using less.hyps by blast
    with s1 have "run c (a # sched) s = Some s' \<and> pc s' = Exit" by simp
    then show ?thesis by blast
  qed
qed

lemma printed_sub_total:
  assumes "inv c s"
  shows "mset (printed s) \<subseteq># total c"
proof -
  from assms have "owed c s = total c" by (simp add: inv_def)
  moreover have "mset (printed s) \<subseteq># owed c s" by (simp add: owed_def add.assoc)
  ultimately show ?thesis by simp
qed

lemma printed_at_Exit:
  assumes i: "inv c s" and p: "pc s = Exit"
  shows "mset (printed s) = total c"
proof -
  from i p have len: "length (printed s) = length (links c)" by (simp add: inv_def)
  have sub: "mset (printed s) \<subseteq># total c" using i by (rule printed_sub_total)
  have "size (mset (printed s)) = size (total c)" using len by simp
  with sub show ?thesis by (metis mset_subset_size subset_mset.less_le less_irrefl)
qed


section \<open>Examples: a network with three pages\<close>

lemma example_net_ok:
  "example_net ''http://ok'' = Response 200 \<lparr>bytes = ''a cat'', failure = None\<rparr>"
  by (simp add: example_net_def)

lemma example_count: "countOccurrences ''cat'' \<lparr>bytes = ''a cat'', failure = None\<rparr> = (1, None)"
  by (simp add: countOccurrences_eq scan_eval)

lemma body_ok:
  "wordsOnPage_body ''cat'' example_net ''http://ok'' = [\<lparr>link = ''http://ok'', count = 1, err = None\<rparr>]"
  by (simp add: wordsOnPage_body_def example_net_ok example_count)

lemma body_missing:
  "wordsOnPage_body ''cat'' example_net ''http://missing'' =
     [\<lparr>link = ''http://missing'', count = 0, err = Some (ErrorsNew ''Did not receive 200 OK'')\<rparr>]"
  by (simp add: wordsOnPage_body_def example_net_def)

lemma body_down:
  "wordsOnPage_body ''cat'' example_net ''http://down'' =
     [\<lparr>link = ''http://down'', count = 0, err = Some (GetError ''connection refused'')\<rparr>]"
  by (simp add: wordsOnPage_body_def example_net_def)

lemma failing_count:
  "countOccurrences ''cat'' \<lparr>bytes = ''cat cat'', failure = Some (ReadError ''connection reset'')\<rparr>
     = (2, Some (ReadError ''connection reset''))"
  by (simp add: countOccurrences_eq scan_eval)

lemma body_failing:
  "wordsOnPage_body ''cat'' failing_net ''http://cut'' =
     [\<lparr>link = ''http://cut'', count = 2, err = Some (ReadError ''connection reset'')\<rparr>]"
  by (simp add: wordsOnPage_body_def failing_net_def failing_count)

lemmas run_eval = step_def main_step_def worker_step_def init_def example_cfg_def
  body_ok body_missing body_down

lemma example_state_reached:
  "run (example_cfg 1 [''http://ok'', ''http://down'']) [Main, Main, Main, Main, Worker 0]
     (init (example_cfg 1 [''http://ok'', ''http://down''])) = Some example_state"
  by (simp add: run_eval example_state_def)

section \<open>One iteration of a goroutine, step by step\<close>

lemma worker_iteration:
  assumes k: "k < length (workers s)" and w: "workers s ! k = Fetching l" and p: "pc s \<noteq> Exit"
    and room: "length (result_chan s) < result_chan_cap s"
  shows "run c [Worker k, Worker k, Worker k] s =
     Some (s\<lparr>result_chan := result_chan s @ wordsOnPage_body (cfg_word c) (http_Get c) l,
             workers := (workers s)[k := AtRange]\<rparr>)"
proof -
  obtain r where r: "wordsOnPage_body (cfg_word c) (http_Get c) l = [r]"
    using wordsOnPage_body_single by blast
  let ?s1 = "s\<lparr>workers := (workers s)[k := Sending [r]]\<rparr>"
  let ?s2 = "s\<lparr>result_chan := result_chan s @ [r], workers := (workers s)[k := Sending []]\<rparr>"
  let ?s3 = "s\<lparr>result_chan := result_chan s @ [r], workers := (workers s)[k := AtRange]\<rparr>"
  have 1: "step c (Worker k) s = Some ?s1" using k w p r by (simp add: step_def worker_step_def)
  have 2: "step c (Worker k) ?s1 = Some ?s2" using k p room by (simp add: step_def worker_step_def)
  have 3: "step c (Worker k) ?s2 = Some ?s3" using k p by (simp add: step_def worker_step_def)
  show ?thesis by (simp add: 1 2 3 r)
qed

lemma worker_receive:
  assumes k: "k < length (workers s)" and w: "workers s ! k = AtRange" and p: "pc s \<noteq> Exit"
    and lc: "link_chan s = l # ls"
  shows "step c (Worker k) s = Some (s\<lparr>link_chan := ls, workers := (workers s)[k := Fetching l]\<rparr>)"
  using assms by (simp add: step_def worker_step_def)

lemma wordsOnPage_body_200:
  "net l = Response 200 body \<Longrightarrow>
   wordsOnPage_body word net l =
     [\<lparr>link = l, count = fst (countOccurrences word body), err = snd (countOccurrences word body)\<rparr>]"
  by (simp add: wordsOnPage_body_def split: prod.split)

section \<open>The claims about \<open>wordsOnPage\<close>\<close>



text \<open>
  C6 (as amended). For every Result that an iteration of \<open>wordsOnPage\<close> sends: when its
  error is \<open>nil\<close>, the page answered 200, its body was read to the end, and the count is
  the exact number of tokens of the body equal to the word (as a 64-bit unsigned value).
  When \<open>http.Get\<close> failed, the error is the one of the GET and the count is 0; when the
  status is not 200, the error is \<open>Did not receive 200 OK\<close> and the count is 0. When the
  status is 200, the count and the error are the ones \<open>countOccurrences\<close> returns for
  the body, also when that error is set: the count is then the partial count, the
  number of matching tokens in the bytes read whenever the scan is not stopped by a word
  too long for the buffer. So a Result with an error and a count other than 0 always
  comes from \<open>countOccurrences\<close>.
\<close>

theorem C6_count_and_error_of_a_Result:
  "r \<in> set (wordsOnPage_body word net l) \<Longrightarrow>
   (err r = None \<longrightarrow>
      (\<exists>page. net l = Response 200 page \<and> failure page = None \<and>
         count r = word_of_nat (spec_count word (bytes page)))) \<and>
   (net l = GetFailed e \<longrightarrow> err r = Some e \<and> count r = 0) \<and>
   (net l = Response status body \<and> status \<noteq> 200 \<longrightarrow>
      err r = Some (ErrorsNew ''Did not receive 200 OK'') \<and> count r = 0) \<and>
   (net l = Response 200 page \<longrightarrow>
      count r = fst (countOccurrences word page) \<and> err r = snd (countOccurrences word page) \<and>
      (\<not> too_long (bytes page) \<longrightarrow>
         count r = word_of_nat (spec_count word (bytes page)) \<and> err r = failure page)) \<and>
   (err r \<noteq> None \<and> count r \<noteq> 0 \<longrightarrow>
      (\<exists>page. net l = Response 200 page \<and> err r = snd (countOccurrences word page) \<and>
         count r = fst (countOccurrences word page)))"
proof -
  assume r: "r \<in> set (wordsOnPage_body word net l)"
  have ok: "count r = fst (countOccurrences word p) \<and> err r = snd (countOccurrences word p)"
    if "net l = Response 200 p" for p
    using r that by (simp add: wordsOnPage_body_200)
  have 1: "\<exists>page. net l = Response 200 page \<and> failure page = None \<and>
         count r = word_of_nat (spec_count word (bytes page))" if n: "err r = None"
  proof (cases "net l")
    case (GetFailed e')
    with r n show ?thesis by (simp add: wordsOnPage_body_def)
  next
    case (Response st p)
    show ?thesis
    proof (cases "st = 200")
      case False
      with Response r n show ?thesis by (simp add: wordsOnPage_body_def)
    next
      case True
      with Response have p: "net l = Response 200 p" by simp
      from ok [OF p] n have "snd (countOccurrences word p) = None" by simp
      then have "\<not> too_long (bytes p)" and f: "failure p = None"
        by (simp_all add: countOccurrences_err split: if_splits)
      with ok [OF p] have "count r = word_of_nat (spec_count word (bytes p))"
        by (simp add: countOccurrences_fits)
      with p f show ?thesis by blast
    qed
  qed
  have 2: "err r = Some e \<and> count r = 0" if "net l = GetFailed e"
    using r that by (simp add: wordsOnPage_body_def)
  have 3: "err r = Some (ErrorsNew ''Did not receive 200 OK'') \<and> count r = 0"
    if "net l = Response status body \<and> status \<noteq> 200"
    using r that by (simp add: wordsOnPage_body_def)
  have 4: "count r = word_of_nat (spec_count word (bytes page)) \<and> err r = failure page"
    if "net l = Response 200 page" "\<not> too_long (bytes page)"
    using ok [OF that(1)] that(2) by (simp add: countOccurrences_fits)
  have 5: "\<exists>page. net l = Response 200 page \<and> err r = snd (countOccurrences word page) \<and>
         count r = fst (countOccurrences word page)" if n: "err r \<noteq> None \<and> count r \<noteq> 0"
  proof (cases "net l")
    case (GetFailed e')
    with r n show ?thesis by (simp add: wordsOnPage_body_def)
  next
    case (Response st p)
    show ?thesis
    proof (cases "st = 200")
      case False
      with Response r n show ?thesis by (simp add: wordsOnPage_body_def)
    next
      case True
      with Response have p: "net l = Response 200 p" by simp
      with ok [OF p] show ?thesis by blast
    qed
  qed
  from 1 2 3 4 5 ok [of page] show ?thesis by blast
qed

theorem C6_witness:
  "\<lparr>link = ''http://ok'', count = 1, err = None\<rparr> \<in> set (wordsOnPage_body ''cat'' example_net ''http://ok'') \<and>
   err \<lparr>link = ''http://ok'', count = 1, err = None\<rparr> = None \<and>
   example_net ''http://ok'' = Response 200 \<lparr>bytes = ''a cat'', failure = None\<rparr> \<and>
   \<not> too_long ''a cat'' \<and>
   (1 :: 64 word) = word_of_nat (spec_count ''cat'' ''a cat'') \<and>
   \<lparr>link = ''http://down'', count = 0, err = Some (GetError ''connection refused'')\<rparr>
      \<in> set (wordsOnPage_body ''cat'' example_net ''http://down'') \<and>
   example_net ''http://down'' = GetFailed (GetError ''connection refused'') \<and>
   \<lparr>link = ''http://missing'', count = 0, err = Some (ErrorsNew ''Did not receive 200 OK'')\<rparr>
      \<in> set (wordsOnPage_body ''cat'' example_net ''http://missing'') \<and>
   example_net ''http://missing'' = Response 404 \<lparr>bytes = ''no cat'', failure = None\<rparr> \<and>
   (404 :: int) \<noteq> 200 \<and>
   \<lparr>link = ''http://cut'', count = 2, err = Some (ReadError ''connection reset'')\<rparr>
      \<in> set (wordsOnPage_body ''cat'' failing_net ''http://cut'') \<and>
   failing_net ''http://cut'' =
     Response 200 \<lparr>bytes = ''cat cat'', failure = Some (ReadError ''connection reset'')\<rparr> \<and>
   \<not> too_long ''cat cat'' \<and>
   (2 :: 64 word) = word_of_nat (spec_count ''cat'' ''cat cat'') \<and>
   (2 :: 64 word) = fst (countOccurrences ''cat''
      \<lparr>bytes = ''cat cat'', failure = Some (ReadError ''connection reset'')\<rparr>) \<and>
   Some (ReadError ''connection reset'') = snd (countOccurrences ''cat''
      \<lparr>bytes = ''cat cat'', failure = Some (ReadError ''connection reset'')\<rparr>)"
proof -
  let ?r = "\<lparr>link = ''http://ok'', count = 1, err = None\<rparr>"
  let ?d = "\<lparr>link = ''http://down'', count = 0, err = Some (GetError ''connection refused'')\<rparr>"
  let ?m = "\<lparr>link = ''http://missing'', count = 0, err = Some (ErrorsNew ''Did not receive 200 OK'')\<rparr>"
  let ?q = "\<lparr>link = ''http://cut'', count = 2, err = Some (ReadError ''connection reset'')\<rparr>"
  let ?cut = "\<lparr>bytes = ''cat cat'', failure = Some (ReadError ''connection reset'')\<rparr>"
  have a: "?r \<in> set (wordsOnPage_body ''cat'' example_net ''http://ok'')" by (simp add: body_ok)
  have b: "?q \<in> set (wordsOnPage_body ''cat'' failing_net ''http://cut'')" by (simp add: body_failing)
  have c: "?d \<in> set (wordsOnPage_body ''cat'' example_net ''http://down'')" by (simp add: body_down)
  have d: "?m \<in> set (wordsOnPage_body ''cat'' example_net ''http://missing'')"
    by (simp add: body_missing)
  have down: "example_net ''http://down'' = GetFailed (GetError ''connection refused'')"
    and missing: "example_net ''http://missing'' = Response 404 \<lparr>bytes = ''no cat'', failure = None\<rparr>"
    by (simp_all add: example_net_def)
  have cut: "failing_net ''http://cut'' = Response 200 ?cut" by (simp add: failing_net_def)
  have fit: "\<not> too_long ''a cat''" "\<not> too_long ''cat cat''" by (simp_all add: scan_eval)
  from C6_count_and_error_of_a_Result [OF a, of _ _ _ "\<lparr>bytes = ''a cat'', failure = None\<rparr>"] example_net_ok fit
  have 1: "(1 :: 64 word) = word_of_nat (spec_count ''cat'' ''a cat'')" by simp
  from C6_count_and_error_of_a_Result [OF b, of _ _ _ ?cut] cut fit
  have 2: "(2 :: 64 word) = word_of_nat (spec_count ''cat'' ''cat cat'')"
    "(2 :: 64 word) = fst (countOccurrences ''cat'' ?cut)"
    "Some (ReadError ''connection reset'') = snd (countOccurrences ''cat'' ?cut)" by simp_all
  from C6_count_and_error_of_a_Result [OF c, of "GetError ''connection refused''"] down
  have 3: "err ?d = Some (GetError ''connection refused'') \<and> count ?d = 0" by blast
  from C6_count_and_error_of_a_Result [OF d, of _ 404 "\<lparr>bytes = ''no cat'', failure = None\<rparr>"] missing
  have 4: "err ?m = Some (ErrorsNew ''Did not receive 200 OK'') \<and> count ?m = 0" by simp
  from a b c d down missing cut fit example_net_ok 1 2 3 4 show ?thesis by simp
qed

text \<open>
  The claim C6 as stated fails for a page whose body breaks off after \<open>cat cat\<close>:
  the Result sent has its error set and the count 2.
\<close>

theorem C6_counterexample:
  "\<lparr>link = ''http://cut'', count = 2, err = Some (ReadError ''connection reset'')\<rparr>
      \<in> set (wordsOnPage_body ''cat'' failing_net ''http://cut'') \<and>
   err \<lparr>link = ''http://cut'', count = 2, err = Some (ReadError ''connection reset'')\<rparr> \<noteq> None \<and>
   count \<lparr>link = ''http://cut'', count = 2, err = Some (ReadError ''connection reset'')\<rparr> \<noteq> 0"
  by (simp add: body_failing)

text \<open>
  C10. One iteration of the loop of \<open>wordsOnPage\<close> sends exactly one Result, and it is
  for the link received: the three branches exclude each other, cover every outcome of
  the GET, and each sends once. A goroutine at the head of its loop that receives a
  link has, by the time it is back at the head of the loop, added exactly one Result to
  the result channel.
\<close>

theorem C10_one_Result_per_link_received:
  "(\<exists>r. wordsOnPage_body word net l = [r] \<and> link r = l) \<and>
   (k < length (workers s) \<and> workers s ! k = AtRange \<and> link_chan s = l # ls \<and> pc s \<noteq> Exit \<and>
    length (result_chan s) < result_chan_cap s \<longrightarrow>
      (\<exists>r. link r = l \<and>
         run c [Worker k, Worker k, Worker k, Worker k] s =
           Some (s\<lparr>link_chan := ls, result_chan := result_chan s @ [r],
                   workers := (workers s)[k := AtRange]\<rparr>)))"
proof (intro conjI impI)
  show "\<exists>r. wordsOnPage_body word net l = [r] \<and> link r = l" by (rule wordsOnPage_body_single)
  assume a: "k < length (workers s) \<and> workers s ! k = AtRange \<and> link_chan s = l # ls \<and>
     pc s \<noteq> Exit \<and> length (result_chan s) < result_chan_cap s"
  obtain r where r: "wordsOnPage_body (cfg_word c) (http_Get c) l = [r]" "link r = l"
    using wordsOnPage_body_single by blast
  let ?s1 = "s\<lparr>link_chan := ls, workers := (workers s)[k := Fetching l]\<rparr>"
  from a have 1: "step c (Worker k) s = Some ?s1" by (intro worker_receive) simp_all
  from a have "run c [Worker k, Worker k, Worker k] ?s1 =
     Some (?s1\<lparr>result_chan := result_chan ?s1 @ wordsOnPage_body (cfg_word c) (http_Get c) l,
             workers := (workers ?s1)[k := AtRange]\<rparr>)"
    by (intro worker_iteration) simp_all
  with 1 r have "run c [Worker k, Worker k, Worker k, Worker k] s =
     Some (s\<lparr>link_chan := ls, result_chan := result_chan s @ [r],
             workers := (workers s)[k := AtRange]\<rparr>)" by simp
  with r(2) show "\<exists>r. link r = l \<and>
         run c [Worker k, Worker k, Worker k, Worker k] s =
           Some (s\<lparr>link_chan := ls, result_chan := result_chan s @ [r],
                   workers := (workers s)[k := AtRange]\<rparr>)" by blast
qed

theorem C10_witness:
  "0 < length (workers example_idle) \<and> workers example_idle ! 0 = AtRange \<and>
   link_chan example_idle = ''http://ok'' # [''http://down''] \<and> pc example_idle \<noteq> Exit \<and>
   length (result_chan example_idle) < result_chan_cap example_idle \<and>
   wordsOnPage_body ''cat'' example_net ''http://ok'' = [\<lparr>link = ''http://ok'', count = 1, err = None\<rparr>] \<and>
   (\<exists>r. link r = ''http://ok'' \<and>
      run (example_cfg 1 [''http://ok'', ''http://down'']) [Worker 0, Worker 0, Worker 0, Worker 0]
        example_idle =
      Some (example_idle\<lparr>link_chan := [''http://down''], result_chan := result_chan example_idle @ [r],
              workers := (workers example_idle)[0 := AtRange]\<rparr>))"
proof -
  have st: "0 < length (workers example_idle)" "workers example_idle ! 0 = AtRange"
    "link_chan example_idle = ''http://ok'' # [''http://down'']" "pc example_idle \<noteq> Exit"
    "length (result_chan example_idle) < result_chan_cap example_idle"
    by (simp_all add: example_idle_def)
  from C10_one_Result_per_link_received
         [of "''cat''" example_net "''http://ok''" 0 example_idle "[''http://down'']"
             "example_cfg 1 [''http://ok'', ''http://down'']"] st body_ok
  show ?thesis by simp
qed

section \<open>The claims about \<open>main\<close>\<close>

lemma total_numWorkers [simp]: "total (c\<lparr>numWorkers := n\<rparr>) = total c"
  by (simp add: total_def results_for_def)

lemma complete_run:
  assumes "0 < sint (numWorkers c)" and "run c sched (init c) = Some s"
  shows "\<exists>sched' s'. run c (sched @ sched') (init c) = Some s' \<and> pc s' = Exit"
proof -
  from assms(2) have "inv c s" by (rule inv_reachable)
  with assms(1) obtain sched' s' where "run c sched' s = Some s'" "pc s' = Exit"
    using completion by blast
  with assms(2) have "run c (sched @ sched') (init c) = Some s' \<and> pc s' = Exit"
    by (simp add: run_append)
  then show ?thesis by blast
qed




lemma example_final_1_reached:
  "run (example_cfg 1 [''http://ok'', ''http://down''])
     [Main, Main, Main, Main, Main, Worker 0, Worker 0, Worker 0, Worker 0, Worker 0, Worker 0,
      Worker 0, Main, Worker 0, Main, Main]
     (init (example_cfg 1 [''http://ok'', ''http://down''])) = Some example_final_1"
  by (simp add: run_eval example_final_1_def)

lemma example_final_8_reached:
  "run (example_cfg 8 [''http://ok'', ''http://down''])
     [Main, Main, Main, Main, Main, Main, Main, Main, Main, Main, Main, Worker 5, Worker 2,
      Worker 2, Worker 5, Main, Worker 2, Worker 5, Main, Main, Main]
     (init (example_cfg 8 [''http://ok'', ''http://down''])) = Some example_final_8"
  by (simp add: run_eval example_final_8_def)

text \<open>
  C7. For the same word, the same links and the same outcome of the GET of every link,
  a run of \<open>main\<close> with one goroutine and a run with eight goroutines that have both
  returned have printed the same multiset of Results: one Result of \<open>wordsOnPage\<close> for
  each link submitted. Such runs exist for both numbers of goroutines.
\<close>

theorem C7_one_worker_or_eight:
  "(\<forall>sched1 s1 sched8 s8.
      run (c\<lparr>numWorkers := 1\<rparr>) sched1 (init (c\<lparr>numWorkers := 1\<rparr>)) = Some s1 \<and> pc s1 = Exit \<and>
      run (c\<lparr>numWorkers := 8\<rparr>) sched8 (init (c\<lparr>numWorkers := 8\<rparr>)) = Some s8 \<and> pc s8 = Exit \<longrightarrow>
      mset (printed s1) = mset (printed s8) \<and>
      mset (printed s1) = (\<Sum>l\<leftarrow>links c. mset (wordsOnPage_body (cfg_word c) (http_Get c) l))) \<and>
   (\<exists>sched1 s1. run (c\<lparr>numWorkers := 1\<rparr>) sched1 (init (c\<lparr>numWorkers := 1\<rparr>)) = Some s1 \<and>
      pc s1 = Exit) \<and>
   (\<exists>sched8 s8. run (c\<lparr>numWorkers := 8\<rparr>) sched8 (init (c\<lparr>numWorkers := 8\<rparr>)) = Some s8 \<and>
      pc s8 = Exit)"
proof (intro conjI allI impI)
  fix sched1 s1 sched8 s8
  assume a: "run (c\<lparr>numWorkers := 1\<rparr>) sched1 (init (c\<lparr>numWorkers := 1\<rparr>)) = Some s1 \<and> pc s1 = Exit \<and>
      run (c\<lparr>numWorkers := 8\<rparr>) sched8 (init (c\<lparr>numWorkers := 8\<rparr>)) = Some s8 \<and> pc s8 = Exit"
  then have "inv (c\<lparr>numWorkers := 1\<rparr>) s1" and "inv (c\<lparr>numWorkers := 8\<rparr>) s8"
    using inv_reachable by blast+
  with a have 1: "mset (printed s1) = total c" and 8: "mset (printed s8) = total c"
    using printed_at_Exit [of "c\<lparr>numWorkers := 1\<rparr>" s1]
      printed_at_Exit [of "c\<lparr>numWorkers := 8\<rparr>" s8] by simp_all
  then show "mset (printed s1) = mset (printed s8)" by simp
  from 1 show "mset (printed s1) = (\<Sum>l\<leftarrow>links c. mset (wordsOnPage_body (cfg_word c) (http_Get c) l))"
    by (simp add: total_def results_for_def)
next
  have "run (c\<lparr>numWorkers := 1\<rparr>) [] (init (c\<lparr>numWorkers := 1\<rparr>)) = Some (init (c\<lparr>numWorkers := 1\<rparr>))"
    by simp
  from complete_run [OF _ this]
  show "\<exists>sched1 s1. run (c\<lparr>numWorkers := 1\<rparr>) sched1 (init (c\<lparr>numWorkers := 1\<rparr>)) = Some s1 \<and>
      pc s1 = Exit" by simp
next
  have "run (c\<lparr>numWorkers := 8\<rparr>) [] (init (c\<lparr>numWorkers := 8\<rparr>)) = Some (init (c\<lparr>numWorkers := 8\<rparr>))"
    by simp
  from complete_run [OF _ this]
  show "\<exists>sched8 s8. run (c\<lparr>numWorkers := 8\<rparr>) sched8 (init (c\<lparr>numWorkers := 8\<rparr>)) = Some s8 \<and>
      pc s8 = Exit" by simp
qed

theorem C7_witness:
  "run (example_cfg 1 [''http://ok'', ''http://down''])
     [Main, Main, Main, Main, Main, Worker 0, Worker 0, Worker 0, Worker 0, Worker 0, Worker 0,
      Worker 0, Main, Worker 0, Main, Main]
     (init (example_cfg 1 [''http://ok'', ''http://down''])) = Some example_final_1 \<and>
   pc example_final_1 = Exit \<and>
   run (example_cfg 8 [''http://ok'', ''http://down''])
     [Main, Main, Main, Main, Main, Main, Main, Main, Main, Main, Main, Worker 5, Worker 2,
      Worker 2, Worker 5, Main, Worker 2, Worker 5, Main, Main, Main]
     (init (example_cfg 8 [''http://ok'', ''http://down''])) = Some example_final_8 \<and>
   pc example_final_8 = Exit \<and>
   printed example_final_1 \<noteq> printed example_final_8 \<and>
   mset (printed example_final_1) = mset (printed example_final_8)"
proof -
  let ?c = "example_cfg 0 [''http://ok'', ''http://down'']"
  have c1: "?c\<lparr>numWorkers := 1\<rparr> = example_cfg 1 [''http://ok'', ''http://down'']"
    and c8: "?c\<lparr>numWorkers := 8\<rparr> = example_cfg 8 [''http://ok'', ''http://down'']"
    by (simp_all add: example_cfg_def)
  have p: "pc example_final_1 = Exit" "pc example_final_8 = Exit"
    by (simp_all add: example_final_1_def example_final_8_def)
  have d: "printed example_final_1 \<noteq> printed example_final_8"
    by (simp add: example_final_1_def example_final_8_def)
  from C7_one_worker_or_eight [of ?c] example_final_1_reached example_final_8_reached p
  have "mset (printed example_final_1) = mset (printed example_final_8)"
    unfolding c1 c8 by blast
  with example_final_1_reached example_final_8_reached p d show ?thesis by simp
qed

lemma example_sending_reached:
  "run (example_cfg 2 [''http://ok'', ''http://ok'', ''http://down''])
     [Main, Main, Main, Main, Worker 0, Main, Main, Main, Worker 1, Worker 1, Worker 0, Worker 1]
     (init (example_cfg 2 [''http://ok'', ''http://ok'', ''http://down''])) = Some example_sending"
  by (simp add: run_eval example_sending_def)

lemma example_linking_reached:
  "run (example_cfg 2 [''http://ok'', ''http://ok'', ''http://down'']) [Main, Main, Main, Main]
     (init (example_cfg 2 [''http://ok'', ''http://ok'', ''http://down''])) = Some example_linking"
  by (simp add: run_eval example_linking_def)

text \<open>
  C9. \<open>main\<close> makes the link channel and the result channel with capacity
  \<open>len(links)\<close>, and the capacities stay. In every state of every run, a goroutine
  that has a Result to send can send it at once: the result channel is not full,
  however few Results \<open>main\<close> has received. The sends of \<open>main\<close> on the link channel
  do not block either.
\<close>

theorem C9_sends_never_block:
  "link_chan_cap (init c) = length (links c) \<and>
   result_chan_cap (init c) = length (links c) \<and>
   (run c sched (init c) = Some s \<longrightarrow>
      link_chan_cap s = length (links c) \<and>
      result_chan_cap s = length (links c) \<and>
      (\<forall>k r rs. k < length (workers s) \<and> workers s ! k = Sending (r # rs) \<and> pc s \<noteq> Exit \<longrightarrow>
         length (result_chan s) < result_chan_cap s \<and>
         worker_step c k s =
           Some (s\<lparr>result_chan := result_chan s @ [r], workers := (workers s)[k := Sending rs]\<rparr>)) \<and>
      (\<forall>l ls. pc s = SendLinks (l # ls) \<longrightarrow>
         length (link_chan s) < link_chan_cap s \<and>
         main_step c s = Some (s\<lparr>link_chan := link_chan s @ [l], pc := SendLinks ls\<rparr>)))"
proof (intro conjI impI allI)
  show "link_chan_cap (init c) = length (links c)" "result_chan_cap (init c) = length (links c)"
    by (simp_all add: init_def)
next
  assume "run c sched (init c) = Some s"
  then have i: "inv c s" by (rule inv_reachable)
  then show "link_chan_cap s = length (links c)" "result_chan_cap s = length (links c)"
    by (simp_all add: inv_def)
  {
    fix k r rs
    assume a: "k < length (workers s) \<and> workers s ! k = Sending (r # rs) \<and> pc s \<noteq> Exit"
    with i show room: "length (result_chan s) < result_chan_cap s"
      using result_send_enabled by blast
    with a show "worker_step c k s =
        Some (s\<lparr>result_chan := result_chan s @ [r], workers := (workers s)[k := Sending rs]\<rparr>)"
      by (simp add: worker_step_def)
  }
  {
    fix l ls
    assume a: "pc s = SendLinks (l # ls)"
    with i show room: "length (link_chan s) < link_chan_cap s" by (rule link_send_enabled)
    with a show "main_step c s = Some (s\<lparr>link_chan := link_chan s @ [l], pc := SendLinks ls\<rparr>)"
      by (simp add: main_step_def)
  }
qed

theorem C9_witness:
  "run (example_cfg 2 [''http://ok'', ''http://ok'', ''http://down''])
     [Main, Main, Main, Main, Worker 0, Main, Main, Main, Worker 1, Worker 1, Worker 0, Worker 1]
     (init (example_cfg 2 [''http://ok'', ''http://ok'', ''http://down''])) = Some example_sending \<and>
   0 < length (workers example_sending) \<and>
   workers example_sending ! 0 = Sending [\<lparr>link = ''http://ok'', count = 1, err = None\<rparr>] \<and>
   pc example_sending \<noteq> Exit \<and> printed example_sending = [] \<and>
   result_chan_cap example_sending = 3 \<and>
   worker_step (example_cfg 2 [''http://ok'', ''http://ok'', ''http://down'']) 0 example_sending =
     Some (example_sending
       \<lparr>result_chan := [\<lparr>link = ''http://ok'', count = 1, err = None\<rparr>,
                        \<lparr>link = ''http://ok'', count = 1, err = None\<rparr>],
        workers := [Sending [], Sending []]\<rparr>) \<and>
   run (example_cfg 2 [''http://ok'', ''http://ok'', ''http://down'']) [Main, Main, Main, Main]
     (init (example_cfg 2 [''http://ok'', ''http://ok'', ''http://down''])) = Some example_linking \<and>
   pc example_linking = SendLinks (''http://ok'' # [''http://down'']) \<and>
   main_step (example_cfg 2 [''http://ok'', ''http://ok'', ''http://down'']) example_linking =
     Some (example_linking\<lparr>link_chan := [''http://ok'', ''http://ok''], pc := SendLinks [''http://down'']\<rparr>)"
proof -
  let ?c = "example_cfg 2 [''http://ok'', ''http://ok'', ''http://down'']"
  have st: "0 < length (workers example_sending)"
    "workers example_sending ! 0 = Sending [\<lparr>link = ''http://ok'', count = 1, err = None\<rparr>]"
    "pc example_sending \<noteq> Exit" "printed example_sending = []"
    by (simp_all add: example_sending_def)
  have l: "length (links ?c) = 3" by (simp add: example_cfg_def)
  from C9_sends_never_block [of ?c _ example_sending] example_sending_reached
  have cap: "result_chan_cap example_sending = length (links ?c)"
    and snd: "\<forall>k r rs. k < length (workers example_sending) \<and>
        workers example_sending ! k = Sending (r # rs) \<and> pc example_sending \<noteq> Exit \<longrightarrow>
        length (result_chan example_sending) < result_chan_cap example_sending \<and>
        worker_step ?c k example_sending =
          Some (example_sending\<lparr>result_chan := result_chan example_sending @ [r],
                  workers := (workers example_sending)[k := Sending rs]\<rparr>)"
    by blast+
  from snd st have "worker_step ?c 0 example_sending =
     Some (example_sending\<lparr>result_chan := result_chan example_sending @
                [\<lparr>link = ''http://ok'', count = 1, err = None\<rparr>],
             workers := (workers example_sending)[0 := Sending []]\<rparr>)"
    by blast
  then have "worker_step ?c 0 example_sending =
     Some (example_sending
       \<lparr>result_chan := [\<lparr>link = ''http://ok'', count = 1, err = None\<rparr>,
                        \<lparr>link = ''http://ok'', count = 1, err = None\<rparr>],
        workers := [Sending [], Sending []]\<rparr>)"
    by (simp add: example_sending_def)
  moreover have pl: "pc example_linking = SendLinks (''http://ok'' # [''http://down''])"
    by (simp add: example_linking_def)
  moreover from C9_sends_never_block [of ?c _ example_linking] example_linking_reached
  have "\<forall>l ls. pc example_linking = SendLinks (l # ls) \<longrightarrow>
      length (link_chan example_linking) < link_chan_cap example_linking \<and>
      main_step ?c example_linking =
        Some (example_linking\<lparr>link_chan := link_chan example_linking @ [l], pc := SendLinks ls\<rparr>)"
    by blast
  with pl have "main_step ?c example_linking =
     Some (example_linking\<lparr>link_chan := link_chan example_linking @ [''http://ok''],
             pc := SendLinks [''http://down'']\<rparr>)" by blast
  then have "main_step ?c example_linking =
     Some (example_linking\<lparr>link_chan := [''http://ok'', ''http://ok''], pc := SendLinks [''http://down'']\<rparr>)"
    by (simp add: example_linking_def)
  ultimately show ?thesis using example_sending_reached example_linking_reached st cap l by simp
qed

lemma example_stuck_reached:
  "run (example_cfg 0x8000000000000000 [''http://ok'']) [Main, Main, Main]
     (init (example_cfg 0x8000000000000000 [''http://ok''])) = Some example_stuck"
  by (simp add: run_eval example_stuck_def)

lemma no_worker_no_step: "workers s = [] \<Longrightarrow> worker_step c k s = None"
  by (simp add: worker_step_def)

text \<open>
  C8, at the input \<open>-word cat -workers 9223372036854775808 http://ok\<close>. \<open>parseCLI\<close>
  accepts it: the number of workers is at least 1. Its signed reading is negative, so
  \<open>main\<close> starts no goroutine; it sends the link, closes the link channel and then waits
  for a Result that no goroutine will send: in the state reached, nothing has been
  printed, \<open>main\<close> has not returned, and neither \<open>main\<close> nor any goroutine can take a
  step. With no goroutine, only \<open>main\<close> moves, so this is the only run.
\<close>

theorem C8_stuck_with_2_63_workers:
  "parseCLI ''cat'' 0x8000000000000000 [''http://ok''] =
     Inr (''cat'', 0x8000000000000000, [''http://ok'']) \<and>
   (1 :: 64 word) \<le> 0x8000000000000000 \<and>
   sint (0x8000000000000000 :: 64 word) < 0 \<and>
   run (example_cfg 0x8000000000000000 [''http://ok'']) [Main, Main, Main]
     (init (example_cfg 0x8000000000000000 [''http://ok''])) = Some example_stuck \<and>
   workers example_stuck = [] \<and> pc example_stuck = Receive 0 \<and> printed example_stuck = [] \<and>
   (\<forall>a. step (example_cfg 0x8000000000000000 [''http://ok'']) a example_stuck = None) \<and>
   (\<forall>k. worker_step (example_cfg 0x8000000000000000 [''http://ok'']) k
          (init (example_cfg 0x8000000000000000 [''http://ok''])) = None)"
proof -
  let ?c = "example_cfg 0x8000000000000000 [''http://ok'']"
  have 1: "parseCLI ''cat'' 0x8000000000000000 [''http://ok''] =
     Inr (''cat'', 0x8000000000000000, [''http://ok''])"
    by (simp add: parseCLI_def)
  have 2: "(1 :: 64 word) \<le> 0x8000000000000000" by simp
  have 3: "sint (0x8000000000000000 :: 64 word) < 0" by simp
  have w: "workers example_stuck = []" "pc example_stuck = Receive 0" "printed example_stuck = []"
    by (simp_all add: example_stuck_def)
  have m: "main_step ?c example_stuck = None"
    by (simp add: main_step_def example_stuck_def example_cfg_def)
  have 4: "step ?c a example_stuck = None" for a
    by (cases a) (simp_all add: step_def m no_worker_no_step w)
  have 5: "worker_step ?c k (init ?c) = None" for k
    by (rule no_worker_no_step) (simp add: init_def)
  from 1 2 3 example_stuck_reached w 4 5 show ?thesis by simp
qed

text \<open>
  X1. When \<open>int(numWorkers)\<close> is positive, that is for \<open>numWorkers\<close> from 1 to
  \<open>2 ^ 63 - 1\<close>, every run of \<open>main\<close> is finite, with a bound on its length that
  depends on the links alone; in every state reached in which \<open>main\<close> has not returned,
  \<open>main\<close> or a goroutine can take a step; and every run can be continued until \<open>main\<close>
  has returned.
\<close>

theorem runs_end_with_main_returned:
  "0 < sint (numWorkers c) \<Longrightarrow> run c sched (init c) = Some s \<Longrightarrow>
   length sched \<le> weight c (init c) \<and>
   (pc s \<noteq> Exit \<longrightarrow> (\<exists>a s'. step c a s = Some s')) \<and>
   (\<exists>sched' s'. run c (sched @ sched') (init c) = Some s' \<and> pc s' = Exit)"
proof -
  assume nw: "0 < sint (numWorkers c)" and r: "run c sched (init c) = Some s"
  from r have i: "inv c s" by (rule inv_reachable)
  from weight_run [OF r] have 1: "length sched \<le> weight c (init c)" by simp
  have 2: "\<exists>a s'. step c a s = Some s'" if "pc s \<noteq> Exit" using i that nw by (rule progress)
  have 3: "\<exists>sched' s'. run c (sched @ sched') (init c) = Some s' \<and> pc s' = Exit"
    using nw r by (rule complete_run)
  from 1 2 3 show ?thesis by blast
qed

theorem runs_end_witness:
  "0 < sint (numWorkers (example_cfg 2 [''http://ok'', ''http://ok'', ''http://down''])) \<and>
   run (example_cfg 2 [''http://ok'', ''http://ok'', ''http://down''])
     [Main, Main, Main, Main, Worker 0, Main, Main, Main, Worker 1, Worker 1, Worker 0, Worker 1]
     (init (example_cfg 2 [''http://ok'', ''http://ok'', ''http://down''])) = Some example_sending \<and>
   pc example_sending \<noteq> Exit \<and>
   (\<exists>a s'. step (example_cfg 2 [''http://ok'', ''http://ok'', ''http://down'']) a example_sending = Some s') \<and>
   (\<exists>sched' s'. run (example_cfg 2 [''http://ok'', ''http://ok'', ''http://down''])
       ([Main, Main, Main, Main, Worker 0, Main, Main, Main, Worker 1, Worker 1, Worker 0, Worker 1] @ sched')
       (init (example_cfg 2 [''http://ok'', ''http://ok'', ''http://down''])) = Some s' \<and> pc s' = Exit)"
proof -
  let ?c = "example_cfg 2 [''http://ok'', ''http://ok'', ''http://down'']"
  have n: "0 < sint (numWorkers ?c)" by (simp add: example_cfg_def)
  have p: "pc example_sending \<noteq> Exit" by (simp add: example_sending_def)
  from runs_end_with_main_returned [OF n example_sending_reached] n example_sending_reached p
  show ?thesis by simp
qed

end
